theory Spec2Isabelle
  imports Main
begin

section \<open>JavaScript strings and values\<close>

text \<open>
  A JavaScript string is a sequence of UTF-16 code units. A code unit is modelled as a
  natural number (every theorem below holds for all of them, so in particular for the
  values below 65536 that a real string holds), a string as the list of its code units.
  \<open>js\<close> turns an Isabelle literal into such a string.
\<close>

type_synonym cu = nat
type_synonym jsstring = "cu list"

definition js :: "string \<Rightarrow> jsstring" where
  "js s = map of_char s"

text \<open>
  The values a property of the returned object can hold: the source builds
  \<^verbatim>\<open>{ type, host, port, user, pass }\<close> from strings and entries of the match array, and an
  entry of a match array is a string or \<^verbatim>\<open>undefined\<close>. Numbers are part of the type
  because the source also computes one (\<^verbatim>\<open>portNum\<close>).
\<close>

datatype jsval = Undefined | Str jsstring | Num int

text \<open>
  White space as \<^verbatim>\<open>String.prototype.trim\<close> and the class escape \<^verbatim>\<open>\s\<close> of a regular
  expression understand it (ECMAScript WhiteSpace and LineTerminator): TAB, LF, VT, FF, CR,
  SP, NBSP, U+1680, U+2000 to U+200A, U+2028, U+2029, U+202F, U+205F, U+3000, U+FEFF.
\<close>

definition is_space :: "cu \<Rightarrow> bool" where
  "is_space c \<longleftrightarrow>
     c = 9 \<or> c = 10 \<or> c = 11 \<or> c = 12 \<or> c = 13 \<or> c = 32 \<or> c = 160 \<or> c = 5760 \<or>
     (8192 \<le> c \<and> c \<le> 8202) \<or> c = 8232 \<or> c = 8233 \<or> c = 8239 \<or> c = 8287 \<or>
     c = 12288 \<or> c = 65279"

definition is_digit :: "cu \<Rightarrow> bool" where
  "is_digit c \<longleftrightarrow> 48 \<le> c \<and> c \<le> 57"

definition trim :: "jsstring \<Rightarrow> jsstring" where
  "trim s = rev (dropWhile is_space (rev (dropWhile is_space s)))"

text \<open>
  \<^verbatim>\<open>toLowerCase\<close>, on the ASCII letters. The source applies it to the first capture only,
  which holds ASCII letters and digits whenever it is defined (lemmas \<open>groups_shape\<close>
  and \<open>scheme_token_host\<close> below), so the Unicode case mappings of other code units never
  come into play.
\<close>

definition toLowerCase :: "jsstring \<Rightarrow> jsstring" where
  "toLowerCase s = map (\<lambda>c. if 65 \<le> c \<and> c \<le> 90 then c + 32 else c) s"

text \<open>\<^verbatim>\<open>s.includes(sub)\<close>: \<open>sub\<close> occurs in \<open>s\<close> at some position.\<close>

fun startsWith :: "jsstring \<Rightarrow> jsstring \<Rightarrow> bool" where
  "startsWith s [] = True"
| "startsWith [] (b # bs) = False"
| "startsWith (a # as) (b # bs) = (a = b \<and> startsWith as bs)"

fun includes_js :: "jsstring \<Rightarrow> jsstring \<Rightarrow> bool" where
  "includes_js [] sub = (sub = [])"
| "includes_js (a # as) sub = (startsWith (a # as) sub \<or> includes_js as sub)"

text \<open>
  \<^verbatim>\<open>parseInt(s, 10)\<close>: leading white space is skipped, one sign is read, and the longest
  run of decimal digits that follows is the value; \<open>None\<close> is \<^verbatim>\<open>NaN\<close> (no digit there).
  The value is the mathematical integer, which is what the double holds below \<open>2^53\<close>.
\<close>

definition digits_val :: "jsstring \<Rightarrow> int" where
  "digits_val ds = foldl (\<lambda>a c. 10 * a + (int c - 48)) 0 ds"

definition parseInt :: "jsstring \<Rightarrow> int option" where
  "parseInt s =
     (let t = dropWhile is_space s;
          sgn = (case t of c # r \<Rightarrow> if c = 45 then - 1 else 1 | [] \<Rightarrow> 1);
          u = (case t of c # r \<Rightarrow> if c = 45 \<or> c = 43 then r else t | [] \<Rightarrow> t);
          ds = takeWhile is_digit u
      in if ds = [] then None else Some (sgn * digits_val ds))"

section \<open>Regular expressions\<close>

text \<open>
  The abstract syntax of the part of the regular expression language that the pattern of
  \<^verbatim>\<open>smartParseProxy\<close> uses: pattern characters, character classes (negated or not) with
  single characters, ranges and \<^verbatim>\<open>\s\<close> as members, the escapes \<^verbatim>\<open>\d\<close> and \<^verbatim>\<open>\s\<close>, greedy
  quantifiers on a class (\<^verbatim>\<open>+\<close> is \<open>Quant 1 None\<close>, \<^verbatim>\<open>{1,5}\<close> is \<open>Quant 1 (Some 5)\<close>),
  sequence, alternation, the greedy \<^verbatim>\<open>?\<close> and capturing groups with their number. A
  non-capturing group \<^verbatim>\<open>(?:...)\<close> only brackets and has no node of its own.
\<close>

datatype cls = One cu | Range cu cu | Cls_s

datatype chm = Set "cls list" | NSet "cls list" | Esc_d | Esc_s

datatype re =
    Lit jsstring
  | Quant nat "nat option" chm
  | Cat re re
  | Alt re re
  | Opt re
  | Group nat re

text \<open>
  Matching one character. With the flag \<^verbatim>\<open>i\<close> (and without \<^verbatim>\<open>u\<close>) two code units match
  when their canonical forms are equal, the canonical form being the upper case letter.
  \<open>canonicalize\<close> is that of ECMAScript on the code units below 128. Above, ECMAScript
  never maps a code unit to one below 128, and no code unit has a white space character as
  its upper case: so against the members this pattern has (ASCII characters and \<^verbatim>\<open>\s\<close>)
  the outcome is the one of ECMAScript for every code unit.
\<close>

definition canonicalize :: "cu \<Rightarrow> cu" where
  "canonicalize c = (if 97 \<le> c \<and> c \<le> 122 then c - 32 else c)"

definition same_cu :: "bool \<Rightarrow> cu \<Rightarrow> cu \<Rightarrow> bool" where
  "same_cu ic a c = (if ic then canonicalize a = canonicalize c else a = c)"

fun cls_mem :: "bool \<Rightarrow> cls \<Rightarrow> cu \<Rightarrow> bool" where
  "cls_mem ic (One a) c = same_cu ic a c"
| "cls_mem ic (Range lo hi) c = list_ex (\<lambda>a. same_cu ic a c) [lo..<Suc hi]"
| "cls_mem ic Cls_s c = is_space c"

fun chm_ok :: "bool \<Rightarrow> chm \<Rightarrow> cu \<Rightarrow> bool" where
  "chm_ok ic (Set ms) c = list_ex (\<lambda>m. cls_mem ic m c) ms"
| "chm_ok ic (NSet ms) c = (\<not> list_ex (\<lambda>m. cls_mem ic m c) ms)"
| "chm_ok ic Esc_d c = is_digit c"
| "chm_ok ic Esc_s c = is_space c"

text \<open>
  The backtracking matcher. A state is the input that remains and the captures so far;
  a matcher returns the states it can end in, in the order in which backtracking tries
  them, so the head of the list is the match that a backtracking engine finds.

  \<open>lit\<close> matches a run of pattern characters. \<open>many\<close> is the greedy quantifier on a
  one-character matcher: it first tries one more character, and stops where it is only
  after that (and only once the minimum is reached).
\<close>

type_synonym caps = "nat \<Rightarrow> jsstring option"
type_synonym mstate = "jsstring \<times> caps"

fun lit :: "bool \<Rightarrow> jsstring \<Rightarrow> jsstring \<Rightarrow> jsstring option" where
  "lit ic [] s = Some s"
| "lit ic (a # as) [] = None"
| "lit ic (a # as) (c # cs) = (if same_cu ic a c then lit ic as cs else None)"

fun many :: "(cu \<Rightarrow> bool) \<Rightarrow> nat \<Rightarrow> nat option \<Rightarrow> jsstring \<Rightarrow> jsstring list" where
  "many p mn mx [] = (if mn = 0 then [[]] else [])"
| "many p mn mx (c # cs) =
     (if p c \<and> mx \<noteq> Some 0 then many p (mn - 1) (map_option (\<lambda>n. n - 1) mx) cs else [])
     @ (if mn = 0 then [c # cs] else [])"

text \<open>
  The optional groups of the pattern cannot match the empty string, and none of its
  groups stands inside a loop: the check of ECMAScript against empty iterations and its
  reset of the captures of a repeated group have nothing to do here and are left out.
\<close>

fun ms :: "bool \<Rightarrow> re \<Rightarrow> mstate \<Rightarrow> mstate list" where
  "ms ic (Lit w) (s, cap) = (case lit ic w s of Some r \<Rightarrow> [(r, cap)] | None \<Rightarrow> [])"
| "ms ic (Quant mn mx c) (s, cap) = map (\<lambda>r. (r, cap)) (many (chm_ok ic c) mn mx s)"
| "ms ic (Cat a b) st = concat (map (ms ic b) (ms ic a st))"
| "ms ic (Alt a b) st = ms ic a st @ ms ic b st"
| "ms ic (Opt a) st = ms ic a st @ [st]"
| "ms ic (Group n a) (s, cap) =
     map (\<lambda>(r, cap'). (r, cap'(n \<mapsto> take (length s - length r) s))) (ms ic a (s, cap))"

text \<open>
  \<^verbatim>\<open>text.match(regex)\<close> for a regular expression without the flags \<^verbatim>\<open>g\<close> and \<^verbatim>\<open>y\<close>: the
  pattern is tried at position 0, then 1, and so on up to the end of the input, and the
  first position where it matches gives the result. The match array is modelled as the
  map from an index to its entry: entry 0 is the matched text, entry \<open>n\<close> the capture of
  group \<open>n\<close>, \<open>None\<close> being \<^verbatim>\<open>undefined\<close>. No match at any position is \<^verbatim>\<open>null\<close>.
\<close>

definition match_at :: "bool \<Rightarrow> re \<Rightarrow> jsstring \<Rightarrow> caps option" where
  "match_at ic r s =
     (case ms ic r (s, Map.empty) of
        [] \<Rightarrow> None
      | (rest, cap) # _ \<Rightarrow> Some (cap(0 \<mapsto> take (length s - length rest) s)))"

fun match :: "bool \<Rightarrow> re \<Rightarrow> jsstring \<Rightarrow> caps option" where
  "match ic r [] = match_at ic r []"
| "match ic r (c # cs) =
     (case match_at ic r (c # cs) of Some m \<Rightarrow> Some m | None \<Rightarrow> match ic r cs)"

section \<open>The proxy parser\<close>

text \<open>
  The pattern of \<^verbatim>\<open>smartParseProxy\<close>, part by part:
  \<^verbatim>\<open>(?:(http|https|socks4|socks5|socks5h)(?::\/\/|\s+))?\<close>
  \<^verbatim>\<open>(?:([^:@\s]+):([^:@\s]+)@)?\<close>
  \<^verbatim>\<open>([a-zA-Z0-9.-]+):(\d{1,5})\<close>
  \<^verbatim>\<open>(?::([^:\s]+):([^:\s]+))?\<close>
  with the flag \<^verbatim>\<open>i\<close>. The code units: \<open>58\<close> is the colon, \<open>64\<close> the at sign, \<open>46\<close> the
  dot, \<open>45\<close> the hyphen.
\<close>

definition scheme_re :: re where
  "scheme_re = Group 1 (Alt (Lit (js ''http'')) (Alt (Lit (js ''https''))
     (Alt (Lit (js ''socks4'')) (Alt (Lit (js ''socks5'')) (Lit (js ''socks5h''))))))"

definition sep_re :: re where
  "sep_re = Alt (Lit (js ''://'')) (Quant 1 None Esc_s)"

definition pre_tok :: chm where
  "pre_tok = NSet [One 58, One 64, Cls_s]"

definition cred_prefix_re :: re where
  "cred_prefix_re =
     Cat (Group 2 (Quant 1 None pre_tok))
       (Cat (Lit (js '':'')) (Cat (Group 3 (Quant 1 None pre_tok)) (Lit (js ''@''))))"

definition host_tok :: chm where
  "host_tok = Set [Range 97 122, Range 65 90, Range 48 57, One 46, One 45]"

definition suf_tok :: chm where
  "suf_tok = NSet [One 58, Cls_s]"

definition cred_suffix_re :: re where
  "cred_suffix_re =
     Cat (Lit (js '':'')) (Cat (Group 6 (Quant 1 None suf_tok))
       (Cat (Lit (js '':'')) (Group 7 (Quant 1 None suf_tok))))"

definition host_port_re :: re where
  "host_port_re =
     Cat (Group 4 (Quant 1 None host_tok))
       (Cat (Lit (js '':'')) (Cat (Group 5 (Quant 1 (Some 5) Esc_d)) (Opt cred_suffix_re)))"

definition regex :: re where
  "regex = Cat (Opt (Cat scheme_re sep_re)) (Cat (Opt cred_prefix_re) host_port_re)"

text \<open>
  \<^verbatim>\<open>a || b\<close> where \<open>a\<close> is an entry of the match array and \<open>b\<close> a string: \<open>a\<close> unless it
  is \<^verbatim>\<open>undefined\<close> or the empty string.
\<close>

definition js_or :: "jsstring option \<Rightarrow> jsstring \<Rightarrow> jsstring" where
  "js_or a b = (case a of None \<Rightarrow> b | Some s \<Rightarrow> if s = [] then b else s)"

definition entry :: "jsstring option \<Rightarrow> jsval" where
  "entry a = (case a of None \<Rightarrow> Undefined | Some s \<Rightarrow> Str s)"

text \<open>\<^verbatim>\<open>/^\.+$/.test(host)\<close>: one or more dots and nothing else.\<close>

definition only_dots :: "jsstring \<Rightarrow> bool" where
  "only_dots h \<longleftrightarrow> h \<noteq> [] \<and> list_all (\<lambda>c. c = 46) h"

record descriptor =
  type :: jsval
  host :: jsval
  port :: jsval
  user :: jsval
  pass :: jsval

text \<open>
  The type chosen from the lower-cased scheme token, in the order of the source's
  \<^verbatim>\<open>if\<close> chain.
\<close>

definition resolve_type :: "jsstring \<Rightarrow> jsstring" where
  "resolve_type rawType =
     (if includes_js rawType (js ''socks4'') then js ''socks4''
      else if includes_js rawType (js ''socks5'') then js ''socks5''
      else if includes_js rawType (js ''http'') then js ''http''
      else js ''http'')"

text \<open>
  \<^verbatim>\<open>smartParseProxy(text)\<close> for a string \<open>text\<close> (on a string, \<^verbatim>\<open>text || ""\<close> is the string
  itself). \<open>None\<close> is the \<^verbatim>\<open>null\<close> it returns. \<^verbatim>\<open>parseInt\<close> of \<^verbatim>\<open>undefined\<close> is
  \<^verbatim>\<open>NaN\<close>, and the test against \<^verbatim>\<open>/^\.+$/\<close> of \<^verbatim>\<open>undefined\<close> is false.
\<close>

definition smartParseProxy :: "jsstring \<Rightarrow> descriptor option" where
  "smartParseProxy text0 =
     (let text = trim text0 in
      if text = [] then None
      else
        case match True regex text of
          None \<Rightarrow> None
        | Some m \<Rightarrow>
            let rawType = toLowerCase (js_or (m 1) []);
                type = resolve_type rawType;
                host = m 4;
                port = m 5;
                user = js_or (m 2) (js_or (m 6) []);
                pass = js_or (m 3) (js_or (m 7) []);
                portNum = (case port of None \<Rightarrow> None | Some p \<Rightarrow> parseInt p)
            in if (case portNum of None \<Rightarrow> True | Some n \<Rightarrow> n < 0 \<or> n > 65535) then None
               else if (case host of None \<Rightarrow> False | Some h \<Rightarrow> only_dots h) then None
               else Some \<lparr>type = Str type, host = entry host, port = entry port,
                          user = Str user, pass = Str pass\<rparr>)"

subsection \<open>The call and what can throw in it\<close>

text \<open>
  The body of \<^verbatim>\<open>smartParseProxy\<close> once more, now for an argument that is any value and
  with the outcome of each step kept: a step gives a value or throws. Two kinds of step can
  throw, both with a \<^verbatim>\<open>TypeError\<close>: calling a method on a value that does not have it
  (\<^verbatim>\<open>trim\<close> and \<^verbatim>\<open>toLowerCase\<close> exist on strings only), and reading an entry of \<^verbatim>\<open>null\<close>
  (\<^verbatim>\<open>match[1]\<close> when there is no match). The operator \<^verbatim>\<open>||\<close>, \<^verbatim>\<open>parseInt\<close>, \<^verbatim>\<open>isNaN\<close>, the
  comparisons and \<^verbatim>\<open>test\<close> convert their operands and never throw.
\<close>

datatype exn = TypeError

definition then_do :: "exn + 'a \<Rightarrow> ('a \<Rightarrow> exn + 'b) \<Rightarrow> exn + 'b" where
  "then_do x f = (case x of Inl e \<Rightarrow> Inl e | Inr a \<Rightarrow> f a)"

text \<open>
  \<^verbatim>\<open>a || b\<close> on values: \<open>a\<close> when it is truthy (\<^verbatim>\<open>undefined\<close>, the empty string and zero are
  not), else \<open>b\<close>.
\<close>

fun truthy :: "jsval \<Rightarrow> bool" where
  "truthy Undefined = False"
| "truthy (Str s) = (s \<noteq> [])"
| "truthy (Num n) = (n \<noteq> 0)"

definition or_val :: "jsval \<Rightarrow> jsval \<Rightarrow> jsval" where
  "or_val a b = (if truthy a then a else b)"

fun call_trim :: "jsval \<Rightarrow> exn + jsstring" where
  "call_trim (Str s) = Inr (trim s)"
| "call_trim Undefined = Inl TypeError"
| "call_trim (Num n) = Inl TypeError"

fun call_toLowerCase :: "jsval \<Rightarrow> exn + jsstring" where
  "call_toLowerCase (Str s) = Inr (toLowerCase s)"
| "call_toLowerCase Undefined = Inl TypeError"
| "call_toLowerCase (Num n) = Inl TypeError"

text \<open>\<^verbatim>\<open>match[n]\<close>, where \<open>match\<close> is the result of \<^verbatim>\<open>text.match(regex)\<close>: an array or \<^verbatim>\<open>null\<close>.\<close>

fun match_entry :: "caps option \<Rightarrow> nat \<Rightarrow> exn + jsval" where
  "match_entry None n = Inl TypeError"
| "match_entry (Some m) n = Inr (entry (m n))"

text \<open>
  \<^verbatim>\<open>parseInt(v, 10)\<close> and \<^verbatim>\<open>/^\.+$/.test(v)\<close> on a value: both work on the string that the
  value converts to, \<^verbatim>\<open>"undefined"\<close> for \<^verbatim>\<open>undefined\<close> and the decimal numeral for an integer.
\<close>

fun parseInt_val :: "jsval \<Rightarrow> int option" where
  "parseInt_val (Str s) = parseInt s"
| "parseInt_val Undefined = None"
| "parseInt_val (Num n) = Some n"

fun test_dots :: "jsval \<Rightarrow> bool" where
  "test_dots (Str s) = only_dots s"
| "test_dots Undefined = False"
| "test_dots (Num n) = False"

definition smartParseProxy_call :: "jsval \<Rightarrow> exn + descriptor option" where
  "smartParseProxy_call text0 =
     then_do (call_trim (or_val text0 (Str []))) (\<lambda>text.
       if text = [] then Inr None
       else
         let match = match True regex text in
         if match = None then Inr None
         else
           then_do (match_entry match 1) (\<lambda>m1.
           then_do (call_toLowerCase (or_val m1 (Str []))) (\<lambda>rawType.
           let type = resolve_type rawType in
           then_do (match_entry match 4) (\<lambda>host.
           then_do (match_entry match 5) (\<lambda>port.
           then_do (match_entry match 2) (\<lambda>m2.
           then_do (match_entry match 6) (\<lambda>m6.
           let user = or_val m2 (or_val m6 (Str [])) in
           then_do (match_entry match 3) (\<lambda>m3.
           then_do (match_entry match 7) (\<lambda>m7.
           let pass = or_val m3 (or_val m7 (Str []));
               portNum = parseInt_val port
           in if (case portNum of None \<Rightarrow> True | Some n \<Rightarrow> n < 0 \<or> n > 65535) then Inr None
              else if test_dots host then Inr None
              else Inr (Some \<lparr>type = Str type, host = host, port = port,
                               user = user, pass = pass\<rparr>))))))))))"

section \<open>The notations of the specification\<close>

text \<open>
  The tokens that the specification names, as predicates on strings: the host alphabet
  \<^verbatim>\<open>[A-Za-z0-9.-]\<close>, a port of one to five decimal digits, a credential token of the
  prefix form (no colon, no at sign, no white space) and of the suffix form (no colon, no
  white space), the scheme tokens in any letter case, and the separator after a scheme.
\<close>

definition host_cu :: "cu \<Rightarrow> bool" where
  "host_cu c \<longleftrightarrow>
     (97 \<le> c \<and> c \<le> 122) \<or> (65 \<le> c \<and> c \<le> 90) \<or> (48 \<le> c \<and> c \<le> 57) \<or> c = 46 \<or> c = 45"

definition prefix_cu :: "cu \<Rightarrow> bool" where
  "prefix_cu c \<longleftrightarrow> c \<noteq> 58 \<and> c \<noteq> 64 \<and> \<not> is_space c"

definition suffix_cu :: "cu \<Rightarrow> bool" where
  "suffix_cu c \<longleftrightarrow> c \<noteq> 58 \<and> \<not> is_space c"

definition host_text :: "jsstring \<Rightarrow> bool" where
  "host_text h \<longleftrightarrow> h \<noteq> [] \<and> list_all host_cu h"

definition port_text :: "jsstring \<Rightarrow> bool" where
  "port_text p \<longleftrightarrow> p \<noteq> [] \<and> length p \<le> 5 \<and> list_all is_digit p"

definition prefix_token :: "jsstring \<Rightarrow> bool" where
  "prefix_token u \<longleftrightarrow> u \<noteq> [] \<and> list_all prefix_cu u"

definition suffix_token :: "jsstring \<Rightarrow> bool" where
  "suffix_token x \<longleftrightarrow> x \<noteq> [] \<and> list_all suffix_cu x"

definition scheme_token :: "jsstring \<Rightarrow> bool" where
  "scheme_token tok \<longleftrightarrow>
     toLowerCase tok = js ''http'' \<or> toLowerCase tok = js ''https'' \<or>
     toLowerCase tok = js ''socks4'' \<or> toLowerCase tok = js ''socks5'' \<or>
     toLowerCase tok = js ''socks5h''"

definition separator :: "jsstring \<Rightarrow> bool" where
  "separator sep \<longleftrightarrow> sep = js ''://'' \<or> (sep \<noteq> [] \<and> list_all is_space sep)"

text \<open>
  The three optional parts around \<^verbatim>\<open>host:port\<close>: the scheme with its separator, the
  credentials before the host (\<^verbatim>\<open>user:pass@\<close>) and after the port (\<^verbatim>\<open>:user:pass\<close>).
\<close>

definition scheme_part :: "jsstring \<Rightarrow> bool" where
  "scheme_part a \<longleftrightarrow> (\<exists>tok sep. a = tok @ sep \<and> scheme_token tok \<and> separator sep)"

definition prefix_part :: "jsstring \<Rightarrow> bool" where
  "prefix_part b \<longleftrightarrow> (\<exists>u v. b = u @ 58 # v @ [64] \<and> prefix_token u \<and> prefix_token v)"

definition suffix_part :: "jsstring \<Rightarrow> bool" where
  "suffix_part d \<longleftrightarrow> (\<exists>x y. d = 58 # x @ 58 # y \<and> suffix_token x \<and> suffix_token y)"

text \<open>
  \<open>proxy_shaped\<close> is the unified grammar: each of the three parts present or absent.
  \<open>seven_notations\<close> is one of the seven notations that the specification lists: the same, but
  never with both credential forms at once.
\<close>

definition proxy_shaped :: "jsstring \<Rightarrow> bool" where
  "proxy_shaped w \<longleftrightarrow>
     (\<exists>a b h p d. w = a @ b @ h @ 58 # p @ d \<and> (a = [] \<or> scheme_part a) \<and>
        (b = [] \<or> prefix_part b) \<and> host_text h \<and> port_text p \<and> (d = [] \<or> suffix_part d))"

definition seven_notations :: "jsstring \<Rightarrow> bool" where
  "seven_notations w \<longleftrightarrow>
     (\<exists>a b h p d. w = a @ b @ h @ 58 # p @ d \<and> (a = [] \<or> scheme_part a) \<and>
        (b = [] \<or> prefix_part b) \<and> host_text h \<and> port_text p \<and> (d = [] \<or> suffix_part d) \<and>
        (b = [] \<or> d = []))"

text \<open>
  The text of a proxy written in the unified grammar from its tokens: an optional scheme
  token with its separator, optional credentials before the host, the host, the port,
  optional credentials after the port. \<open>tokens_ok\<close> says that every token given is one of
  its kind.
\<close>

type_synonym tokens =
  "(jsstring \<times> jsstring) option \<times> (jsstring \<times> jsstring) option \<times> jsstring \<times> jsstring \<times>
   (jsstring \<times> jsstring) option"

fun scheme_text :: "(jsstring \<times> jsstring) option \<Rightarrow> jsstring" where
  "scheme_text None = []"
| "scheme_text (Some (tok, sep)) = tok @ sep"

fun prefix_text :: "(jsstring \<times> jsstring) option \<Rightarrow> jsstring" where
  "prefix_text None = []"
| "prefix_text (Some (u, v)) = u @ 58 # v @ [64]"

fun suffix_text :: "(jsstring \<times> jsstring) option \<Rightarrow> jsstring" where
  "suffix_text None = []"
| "suffix_text (Some (x, y)) = 58 # x @ 58 # y"

fun proxy_text :: "tokens \<Rightarrow> jsstring" where
  "proxy_text (sch, pre, h, p, suf) = scheme_text sch @ prefix_text pre @ h @ 58 # p @ suffix_text suf"

fun scheme_ok :: "(jsstring \<times> jsstring) option \<Rightarrow> bool" where
  "scheme_ok None = True"
| "scheme_ok (Some (tok, sep)) = (scheme_token tok \<and> separator sep)"

fun prefix_ok :: "(jsstring \<times> jsstring) option \<Rightarrow> bool" where
  "prefix_ok None = True"
| "prefix_ok (Some (u, v)) = (prefix_token u \<and> prefix_token v)"

fun suffix_ok :: "(jsstring \<times> jsstring) option \<Rightarrow> bool" where
  "suffix_ok None = True"
| "suffix_ok (Some (x, y)) = (suffix_token x \<and> suffix_token y)"

fun tokens_ok :: "tokens \<Rightarrow> bool" where
  "tokens_ok (sch, pre, h, p, suf) =
     (scheme_ok sch \<and> prefix_ok pre \<and> host_text h \<and> port_text p \<and> suffix_ok suf)"

text \<open>
  Text around a written proxy. \<open>scheme_ending\<close>: the string ends in a scheme token (some
  non-empty suffix of it is one). \<open>words_before\<close>: words in front of the proxy, set off
  from it by white space, with no colon in them and not ending in a scheme token before that
  white space. \<open>words_after\<close>: words behind the proxy, set off from it by white space.
\<close>

fun scheme_ending :: "jsstring \<Rightarrow> bool" where
  "scheme_ending [] = False"
| "scheme_ending (a # x) = (scheme_token (a # x) \<or> scheme_ending x)"

definition words_before :: "jsstring \<Rightarrow> bool" where
  "words_before l \<longleftrightarrow>
     l = [] \<or> (58 \<notin> set l \<and> \<not> is_space (hd l) \<and> is_space (last l) \<and>
       \<not> scheme_ending (rev (dropWhile is_space (rev l))))"

definition words_after :: "jsstring \<Rightarrow> bool" where
  "words_after r \<longleftrightarrow> r = [] \<or> (is_space (hd r) \<and> \<not> is_space (last r))"

text \<open>
  Text \<open>r\<close> right after a written proxy that the greedy pattern cannot draw into its match:
  nothing, or text that starts with white space, or, after credentials \<^verbatim>\<open>:user:pass\<close>, with
  a colon, or, after the port, with a character that is no colon and no further digit of a
  port shorter than five digits; in the bare form \<^verbatim>\<open>host:port\<close> such text must hold no at
  sign, which would turn \<^verbatim>\<open>host:port...@\<close> into credentials.
\<close>

definition trail_ok ::
  "(jsstring \<times> jsstring) option \<Rightarrow> jsstring \<Rightarrow> (jsstring \<times> jsstring) option \<Rightarrow> jsstring \<Rightarrow> bool" where
  "trail_ok pre p suf r \<longleftrightarrow>
     (case r of [] \<Rightarrow> True
      | a # _ \<Rightarrow> is_space a \<or>
          (case suf of Some _ \<Rightarrow> a = 58
           | None \<Rightarrow> a \<noteq> 58 \<and> (\<not> is_digit a \<or> length p = 5) \<and> (pre = None \<longrightarrow> 64 \<notin> set r)))"

text \<open>
  A word in any letter case: \<open>in_any_case w tok\<close> says that \<open>tok\<close> is the lower-case word
  \<open>w\<close> with any of its letters in upper case. \<open>scheme_table\<close> is the table of the
  specification: each scheme token with the scheme it resolves to.
\<close>

definition in_any_case :: "jsstring \<Rightarrow> jsstring \<Rightarrow> bool" where
  "in_any_case w tok \<longleftrightarrow> list_all2 (\<lambda>a c. c = a \<or> (97 \<le> a \<and> a \<le> 122 \<and> c + 32 = a)) w tok"

definition scheme_table :: "(jsstring \<times> jsstring) list" where
  "scheme_table =
     [(js ''http'', js ''http''), (js ''https'', js ''http''), (js ''socks4'', js ''socks4''),
      (js ''socks5'', js ''socks5''), (js ''socks5h'', js ''socks5'')]"

text \<open>
  The decimal numeral of a natural number, as \<^verbatim>\<open>String(n)\<close> writes it: the way a port
  number becomes the text after the colon.
\<close>

fun decimal :: "nat \<Rightarrow> jsstring" where
  "decimal n = (if n < 10 then [48 + n] else decimal (n div 10) @ [48 + n mod 10])"

text \<open>
  What a match array of the pattern looks like: \<open>w\<close> is the matched text, made of the
  parts of the unified grammar, and \<open>m\<close> holds each token under the number of its group
  (1 the scheme, 2 and 3 the credentials before the host, 4 the host, 5 the port, 6 and 7
  the credentials after the port), with \<^verbatim>\<open>undefined\<close> for the groups of an absent part.
\<close>

definition match_shape :: "jsstring \<Rightarrow> caps \<Rightarrow> bool" where
  "match_shape w m \<longleftrightarrow>
     (\<exists>a b h p d. w = a @ b @ h @ 58 # p @ d \<and> host_text h \<and> port_text p \<and>
        m 4 = Some h \<and> m 5 = Some p \<and>
        ((a = [] \<and> m 1 = None) \<or>
         (\<exists>tok sep. a = tok @ sep \<and> scheme_token tok \<and> separator sep \<and> m 1 = Some tok)) \<and>
        ((b = [] \<and> m 2 = None \<and> m 3 = None) \<or>
         (\<exists>u v. b = u @ 58 # v @ [64] \<and> prefix_token u \<and> prefix_token v \<and>
            m 2 = Some u \<and> m 3 = Some v)) \<and>
        ((d = [] \<and> m 6 = None \<and> m 7 = None) \<or>
         (\<exists>x y. d = 58 # x @ 58 # y \<and> suffix_token x \<and> suffix_token y \<and>
            m 6 = Some x \<and> m 7 = Some y)))"

text \<open>A colon with a decimal digit right after it occurs in the string.\<close>

fun colon_digit :: "jsstring \<Rightarrow> bool" where
  "colon_digit (a # b # cs) = ((a = 58 \<and> is_digit b) \<or> colon_digit (b # cs))"
| "colon_digit cs = False"

section \<open>Properties of the matcher\<close>

subsection \<open>Character classes of the pattern\<close>

lemma range_ic: "list_ex (\<lambda>a. same_cu True a c) [lo..<Suc hi] \<longleftrightarrow> (\<exists>a. lo \<le> a \<and> a \<le> hi \<and> canonicalize a = canonicalize c)"
  by (auto simp: list_ex_iff same_cu_def)

lemma lower_ic: "(\<exists>a. 97 \<le> a \<and> a \<le> 122 \<and> canonicalize a = canonicalize c) \<longleftrightarrow> (97 \<le> c \<and> c \<le> 122) \<or> (65 \<le> c \<and> c \<le> 90)"
proof
  assume "\<exists>a. 97 \<le> a \<and> a \<le> 122 \<and> canonicalize a = canonicalize c"
  then show "(97 \<le> c \<and> c \<le> 122) \<or> (65 \<le> c \<and> c \<le> 90)"
    by (auto simp: canonicalize_def split: if_splits)
next
  assume h: "(97 \<le> c \<and> c \<le> 122) \<or> (65 \<le> c \<and> c \<le> 90)"
  show "\<exists>a. 97 \<le> a \<and> a \<le> 122 \<and> canonicalize a = canonicalize c"
  proof (cases "97 \<le> c")
    case True
    with h show ?thesis by (intro exI[of _ c]) auto
  next
    case False
    with h show ?thesis by (intro exI[of _ "c + 32"]) (auto simp: canonicalize_def)
  qed
qed

lemma upper_ic: "(\<exists>a. 65 \<le> a \<and> a \<le> 90 \<and> canonicalize a = canonicalize c) \<longleftrightarrow> (97 \<le> c \<and> c \<le> 122) \<or> (65 \<le> c \<and> c \<le> 90)"
proof
  assume "\<exists>a. 65 \<le> a \<and> a \<le> 90 \<and> canonicalize a = canonicalize c"
  then show "(97 \<le> c \<and> c \<le> 122) \<or> (65 \<le> c \<and> c \<le> 90)"
    by (auto simp: canonicalize_def split: if_splits)
next
  assume h: "(97 \<le> c \<and> c \<le> 122) \<or> (65 \<le> c \<and> c \<le> 90)"
  show "\<exists>a. 65 \<le> a \<and> a \<le> 90 \<and> canonicalize a = canonicalize c"
  proof (cases "97 \<le> c")
    case True
    with h show ?thesis by (intro exI[of _ "c - 32"]) (auto simp: canonicalize_def)
  next
    case False
    with h show ?thesis by (intro exI[of _ c]) auto
  qed
qed

lemma digit_ic: "(\<exists>a. 48 \<le> a \<and> a \<le> 57 \<and> canonicalize a = canonicalize c) \<longleftrightarrow> (48 \<le> c \<and> c \<le> 57)"
  by (auto simp: canonicalize_def split: if_splits)

lemma one_ic: "a < 97 \<or> 122 < a \<Longrightarrow> a < 65 \<or> 90 < a \<Longrightarrow> same_cu True a c \<longleftrightarrow> c = a"
  by (auto simp: same_cu_def canonicalize_def split: if_splits)

lemma cls_lower: "cls_mem True (Range 97 122) c \<longleftrightarrow> (97 \<le> c \<and> c \<le> 122) \<or> (65 \<le> c \<and> c \<le> 90)"
  unfolding cls_mem.simps range_ic lower_ic ..

lemma cls_upper: "cls_mem True (Range 65 90) c \<longleftrightarrow> (97 \<le> c \<and> c \<le> 122) \<or> (65 \<le> c \<and> c \<le> 90)"
  unfolding cls_mem.simps range_ic upper_ic ..

lemma cls_digit: "cls_mem True (Range 48 57) c \<longleftrightarrow> (48 \<le> c \<and> c \<le> 57)"
  unfolding cls_mem.simps range_ic digit_ic ..

lemma host_tok_ok: "chm_ok True host_tok = host_cu"
  by (rule ext) (simp add: host_tok_def host_cu_def cls_lower cls_upper cls_digit one_ic del: cls_mem.simps(2), blast)

lemma pre_tok_ok: "chm_ok True pre_tok = prefix_cu"
  by (rule ext) (simp add: pre_tok_def one_ic prefix_cu_def)

lemma suf_tok_ok: "chm_ok True suf_tok = suffix_cu"
  by (rule ext) (simp add: suf_tok_def one_ic suffix_cu_def)

lemma host_cu_prefix_cu: "host_cu c \<Longrightarrow> prefix_cu c"
  by (auto simp: host_cu_def prefix_cu_def is_space_def)

lemma digit_host_cu: "is_digit c \<Longrightarrow> host_cu c"
  by (simp add: is_digit_def host_cu_def)

subsection \<open>The greedy quantifier\<close>

lemma many_iff:
  "r \<in> set (many p mn mx s) \<longleftrightarrow>
     (\<exists>w. s = w @ r \<and> list_all p w \<and> mn \<le> length w \<and> (case mx of None \<Rightarrow> True | Some m \<Rightarrow> length w \<le> m))"
proof (induction s arbitrary: mn mx)
  case Nil
  then show ?case by (auto split: option.splits)
next
  case (Cons c cs)
  show ?case
  proof
    assume "r \<in> set (many p mn mx (c # cs))"
    then consider (more) "p c" "mx \<noteq> Some 0" "r \<in> set (many p (mn - 1) (map_option (\<lambda>n. n - 1) mx) cs)"
      | (stop) "mn = 0" "r = c # cs"
      by (auto split: if_splits)
    then show "\<exists>w. c # cs = w @ r \<and> list_all p w \<and> mn \<le> length w \<and> (case mx of None \<Rightarrow> True | Some m \<Rightarrow> length w \<le> m)"
    proof cases
      case more
      from more(3) obtain w where w: "cs = w @ r" "list_all p w" "mn - 1 \<le> length w"
        "(case map_option (\<lambda>n. n - 1) mx of None \<Rightarrow> True | Some m \<Rightarrow> length w \<le> m)"
        unfolding Cons.IH by blast
      from w more(1,2) show ?thesis
        by (intro exI[of _ "c # w"]) (auto split: option.splits)
    next
      case stop
      then show ?thesis by (intro exI[of _ "[]"]) (auto split: option.splits)
    qed
  next
    assume "\<exists>w. c # cs = w @ r \<and> list_all p w \<and> mn \<le> length w \<and> (case mx of None \<Rightarrow> True | Some m \<Rightarrow> length w \<le> m)"
    then obtain w where w: "c # cs = w @ r" "list_all p w" "mn \<le> length w"
      "(case mx of None \<Rightarrow> True | Some m \<Rightarrow> length w \<le> m)" by blast
    show "r \<in> set (many p mn mx (c # cs))"
    proof (cases w)
      case Nil
      with w have "r = c # cs" "mn = 0" by auto
      then show ?thesis by simp
    next
      case (Cons a w')
      with w have "cs = w' @ r" "p c" "list_all p w'" "mn - 1 \<le> length w'" "mx \<noteq> Some 0"
        "(case map_option (\<lambda>n. n - 1) mx of None \<Rightarrow> True | Some m \<Rightarrow> length w' \<le> m)"
        by (auto split: option.splits)
      then have "r \<in> set (many p (mn - 1) (map_option (\<lambda>n. n - 1) mx) cs)"
        unfolding Cons.IH by blast
      with \<open>p c\<close> \<open>mx \<noteq> Some 0\<close> show ?thesis by simp
    qed
  qed
qed

text \<open>What follows a run rejects the characters of the run: only the longest run goes on.\<close>

lemma many0_follow:
  assumes "\<And>c r. p c \<Longrightarrow> F (c # r) = []"
  shows "concat (map F (many p 0 None s)) = F (dropWhile p s)"
  using assms by (induction s) auto

lemma many1_follow:
  assumes "\<And>c r. p c \<Longrightarrow> F (c # r) = []"
  shows "concat (map F (many p (Suc 0) None s)) = (if takeWhile p s = [] then [] else F (dropWhile p s))"
proof (cases s)
  case Nil
  then show ?thesis by simp
next
  case (Cons c cs)
  then show ?thesis using many0_follow[of p F cs, OF assms] by auto
qed

lemma many_first:
  "list_all p w \<Longrightarrow> mn \<le> length w \<Longrightarrow> length w \<le> m \<Longrightarrow>
   (case t of [] \<Rightarrow> True | c # _ \<Rightarrow> \<not> p c \<or> length w = m) \<Longrightarrow>
   \<exists>rest. many p mn (Some m) (w @ t) = t # rest"
proof (induction w arbitrary: mn m)
  case Nil
  then show ?case by (cases t) auto
next
  case (Cons a w)
  from Cons.prems obtain m' where m: "m = Suc m'" by (cases m) auto
  have "\<exists>rest. many p (mn - 1) (Some m') (w @ t) = t # rest"
    using Cons.prems m by (intro Cons.IH) (auto split: list.splits)
  with Cons.prems m show ?case by auto
qed

subsection \<open>Pattern characters\<close>

lemma js_colon: "js '':'' = [58]" and js_at: "js ''@'' = [64]"
  by (simp_all add: js_def)

lemma lit_colon: "lit True [58] s = (case s of [] \<Rightarrow> None | a # r \<Rightarrow> if a = 58 then Some r else None)"
  by (cases s) (simp_all add: one_ic)

lemma lit_at: "lit True [64] s = (case s of [] \<Rightarrow> None | a # r \<Rightarrow> if a = 64 then Some r else None)"
  by (cases s) (simp_all add: one_ic)

lemma ms_colon: "ms True (Lit (js '':'')) (s, c) = (case s of [] \<Rightarrow> [] | a # r \<Rightarrow> if a = 58 then [(r, c)] else [])"
  by (simp add: js_colon lit_colon split: list.splits)

lemma ms_at: "ms True (Lit (js ''@'')) (s, c) = (case s of [] \<Rightarrow> [] | a # r \<Rightarrow> if a = 64 then [(r, c)] else [])"
  by (simp add: js_at lit_at split: list.splits)

lemma lit_Some_iff: "lit ic w s = Some r \<longleftrightarrow> (\<exists>t. s = t @ r \<and> list_all2 (same_cu ic) w t)"
proof (induction ic w s rule: lit.induct)
  case (1 ic s)
  then show ?case by auto
next
  case (2 ic a as)
  then show ?case by (auto simp: list_all2_Cons1)
next
  case (3 ic a as c cs)
  show ?case
  proof (cases "same_cu ic a c")
    case True
    then show ?thesis using 3 by (auto simp: list_all2_Cons1 Cons_eq_append_conv)
  next
    case False
    then show ?thesis by (auto simp: list_all2_Cons1 Cons_eq_append_conv)
  qed
qed

subsection \<open>A captured run and what follows it\<close>

lemma take_takeWhile: "take (length s - length (dropWhile P s)) s = takeWhile P s"
proof -
  have "length s = length (takeWhile P s) + length (dropWhile P s)"
    by (metis length_append takeWhile_dropWhile_id)
  then have "length s - length (dropWhile P s) = length (takeWhile P s)"
    by simp
  then show ?thesis by (simp add: takeWhile_eq_take[symmetric])
qed

lemma ms_group_quant:
  "ms ic (Group n (Quant mn mx ch)) (s, c) =
     map (\<lambda>r. (r, c(n \<mapsto> take (length s - length r) s))) (many (chm_ok ic ch) mn mx s)"
  by (simp add: comp_def)

lemma in_ms_group_quant:
  "(r, c') \<in> set (ms ic (Group n (Quant mn mx ch)) (s, c)) \<longleftrightarrow>
     (\<exists>w. s = w @ r \<and> list_all (chm_ok ic ch) w \<and> mn \<le> length w \<and>
        (case mx of None \<Rightarrow> True | Some m \<Rightarrow> length w \<le> m) \<and> c' = c(n \<mapsto> w))"
  unfolding ms_group_quant by (auto simp: many_iff)

lemma cat_group_plus:
  assumes "\<And>a r c'. chm_ok ic ch a \<Longrightarrow> ms ic R (a # r, c') = []"
  shows "ms ic (Cat (Group n (Quant (Suc 0) None ch)) R) (s, c) =
     (if takeWhile (chm_ok ic ch) s = [] then []
      else ms ic R (dropWhile (chm_ok ic ch) s, c(n \<mapsto> takeWhile (chm_ok ic ch) s)))"
proof -
  let ?F = "\<lambda>r. ms ic R (r, c(n \<mapsto> take (length s - length r) s))"
  have "ms ic (Cat (Group n (Quant (Suc 0) None ch)) R) (s, c) =
      concat (map ?F (many (chm_ok ic ch) (Suc 0) None s))"
    unfolding ms.simps(3) ms_group_quant by (simp add: comp_def)
  also have "\<dots> = (if takeWhile (chm_ok ic ch) s = [] then [] else ?F (dropWhile (chm_ok ic ch) s))"
    by (rule many1_follow) (simp add: assms)
  finally show ?thesis by (simp add: take_takeWhile)
qed

subsection \<open>The parts of the pattern in closed form\<close>

lemma ms_cred_prefix:
  "ms True cred_prefix_re (s, c) =
     (if takeWhile prefix_cu s = [] then []
      else case dropWhile prefix_cu s of
        [] \<Rightarrow> []
      | a # s1 \<Rightarrow>
          if a \<noteq> 58 \<or> takeWhile prefix_cu s1 = [] then []
          else case dropWhile prefix_cu s1 of
            [] \<Rightarrow> []
          | b # r \<Rightarrow> if b = 64 then [(r, c(2 \<mapsto> takeWhile prefix_cu s, 3 \<mapsto> takeWhile prefix_cu s1))] else [])"
proof -
  have inner0: "ms True (Cat (Group 3 (Quant (Suc 0) None pre_tok)) (Lit (js ''@''))) (s1, c1) =
     (if takeWhile prefix_cu s1 = [] then []
      else ms True (Lit (js ''@'')) (dropWhile prefix_cu s1, c1(3 \<mapsto> takeWhile prefix_cu s1)))" for s1 c1
  proof (subst cat_group_plus)
    show "ms True (Lit (js ''@'')) (a # r, c') = []" if "chm_ok True pre_tok a" for a r c'
      using that by (simp add: pre_tok_ok prefix_cu_def js_at one_ic)
  qed (simp add: pre_tok_ok)
  have inner: "ms True (Cat (Group 3 (Quant (Suc 0) None pre_tok)) (Lit (js ''@''))) (s1, c1) =
     (if takeWhile prefix_cu s1 = [] then []
      else case dropWhile prefix_cu s1 of [] \<Rightarrow> []
        | b # r \<Rightarrow> if b = 64 then [(r, c1(3 \<mapsto> takeWhile prefix_cu s1))] else [])" for s1 c1
    unfolding inner0
    by (cases "dropWhile prefix_cu s1") (simp_all add: js_at one_ic del: dropWhile_eq_Nil_conv)
  have outer: "ms True cred_prefix_re (s, c) =
     (if takeWhile prefix_cu s = [] then []
      else ms True (Cat (Lit (js '':'')) (Cat (Group 3 (Quant (Suc 0) None pre_tok)) (Lit (js ''@''))))
             (dropWhile prefix_cu s, c(2 \<mapsto> takeWhile prefix_cu s)))"
    unfolding cred_prefix_re_def One_nat_def
  proof (subst cat_group_plus)
    show "ms True (Cat (Lit (js '':'')) R) (a # r, c') = []" if "chm_ok True pre_tok a" for a r c' R
      using that by (simp add: pre_tok_ok prefix_cu_def js_colon one_ic)
  qed (simp add: pre_tok_ok)
  have colon: "ms True (Cat (Lit (js '':'')) R) (t, c1) =
      (case t of [] \<Rightarrow> [] | a # s1 \<Rightarrow> if a = 58 then ms True R (s1, c1) else [])" for R t c1
    by (cases t) (simp_all add: js_colon one_ic)
  show ?thesis
    unfolding outer colon inner
    by (cases "dropWhile prefix_cu s") (simp_all del: dropWhile_eq_Nil_conv)
qed

subsection \<open>The states a part of the pattern can end in\<close>

lemma in_cat:
  "(r, c') \<in> set (ms ic (Cat a b) (s, c)) \<longleftrightarrow>
     (\<exists>s1 c1. (s1, c1) \<in> set (ms ic a (s, c)) \<and> (r, c') \<in> set (ms ic b (s1, c1)))"
  by auto

lemma in_alt:
  "x \<in> set (ms ic (Alt a b) st) \<longleftrightarrow> x \<in> set (ms ic a st) \<or> x \<in> set (ms ic b st)"
  by simp

lemma in_opt: "x \<in> set (ms ic (Opt a) st) \<longleftrightarrow> x \<in> set (ms ic a st) \<or> x = st"
  by auto

lemma in_lit:
  "(r, c') \<in> set (ms ic (Lit w) (s, c)) \<longleftrightarrow> (\<exists>t. s = t @ r \<and> list_all2 (same_cu ic) w t) \<and> c' = c"
  using lit_Some_iff[of ic w s r] by (auto split: option.splits)

lemma in_colon: "(r, c') \<in> set (ms True (Lit (js '':'')) (s, c)) \<longleftrightarrow> s = 58 # r \<and> c' = c"
  unfolding ms_colon by (cases s) auto

lemma in_at: "(r, c') \<in> set (ms True (Lit (js ''@'')) (s, c)) \<longleftrightarrow> s = 64 # r \<and> c' = c"
  unfolding ms_at by (cases s) auto

lemma in_group:
  "(r, c') \<in> set (ms ic (Group n a) (s, c)) \<longleftrightarrow>
     (\<exists>c1. (r, c1) \<in> set (ms ic a (s, c)) \<and> c' = c1(n \<mapsto> take (length s - length r) s))"
  by (force simp: image_iff)

lemma in_cred_suffix:
  "(r, c') \<in> set (ms True cred_suffix_re (t, c)) \<Longrightarrow>
     (\<exists>x y. t = 58 # x @ 58 # y @ r \<and> suffix_token x \<and> suffix_token y \<and> c' = c(6 \<mapsto> x, 7 \<mapsto> y))"
  unfolding cred_suffix_re_def in_cat in_colon in_ms_group_quant suf_tok_ok suffix_token_def
  by (auto simp: Suc_le_eq)

lemma in_cred_prefix:
  "(r, c') \<in> set (ms True cred_prefix_re (s, c)) \<Longrightarrow>
     (\<exists>u v. s = u @ 58 # v @ 64 # r \<and> prefix_token u \<and> prefix_token v \<and> c' = c(2 \<mapsto> u, 3 \<mapsto> v))"
  unfolding cred_prefix_re_def in_cat in_colon in_at in_ms_group_quant pre_tok_ok prefix_token_def
  by (auto simp: Suc_le_eq)

lemma in_host_port:
  "(r, c') \<in> set (ms True host_port_re (s, c)) \<Longrightarrow>
     (\<exists>h p. host_text h \<and> port_text p \<and>
        ((s = h @ 58 # p @ r \<and> c' = c(4 \<mapsto> h, 5 \<mapsto> p)) \<or>
         (\<exists>x y. s = h @ 58 # p @ 58 # x @ 58 # y @ r \<and> suffix_token x \<and> suffix_token y \<and>
            c' = c(4 \<mapsto> h, 5 \<mapsto> p, 6 \<mapsto> x, 7 \<mapsto> y))))"
  unfolding host_port_re_def in_cat in_colon in_opt in_ms_group_quant host_tok_ok
    host_text_def port_text_def chm_ok.simps
  by (fastforce simp: Suc_le_eq dest!: in_cred_suffix)

subsection \<open>The scheme token and its separator\<close>

lemma same_cu_lower:
  "same_cu True a c \<Longrightarrow> (97 \<le> a \<and> a \<le> 122) \<or> (48 \<le> a \<and> a \<le> 57) \<Longrightarrow>
   (if 65 \<le> c \<and> c \<le> 90 then c + 32 else c) = a"
  by (auto simp: same_cu_def canonicalize_def split: if_splits)

lemma toLowerCase_match:
  "list_all2 (same_cu True) w t \<Longrightarrow> list_all (\<lambda>a. (97 \<le> a \<and> a \<le> 122) \<or> (48 \<le> a \<and> a \<le> 57)) w \<Longrightarrow>
   toLowerCase t = w"
proof (induction rule: list_all2_induct)
  case Nil
  then show ?case by (simp add: toLowerCase_def)
next
  case (Cons a w c t)
  then show ?case using same_cu_lower[of a c] by (simp add: toLowerCase_def)
qed

lemma in_scheme:
  assumes "(r, c') \<in> set (ms True scheme_re (s, c))"
  shows "\<exists>tok. s = tok @ r \<and> scheme_token tok \<and> c' = c(1 \<mapsto> tok)"
proof -
  from assms obtain t w where t: "s = t @ r" "list_all2 (same_cu True) w t"
    "w = js ''http'' \<or> w = js ''https'' \<or> w = js ''socks4'' \<or> w = js ''socks5'' \<or> w = js ''socks5h''"
    and c': "c' = c(1 \<mapsto> take (length s - length r) s)"
    unfolding scheme_re_def in_group in_alt in_lit by blast
  from t(3) have "list_all (\<lambda>a. (97 \<le> a \<and> a \<le> 122) \<or> (48 \<le> a \<and> a \<le> 57)) w"
    by (elim disjE) (simp_all add: js_def)
  with t(2) have "toLowerCase t = w" by (rule toLowerCase_match)
  with t(3) have "scheme_token t" unfolding scheme_token_def by simp
  with t(1) c' show ?thesis by auto
qed

lemma esc_s_ok: "chm_ok ic Esc_s = is_space" and esc_d_ok: "chm_ok ic Esc_d = is_digit"
  by (rule ext, simp)+

lemma js_sep: "js ''://'' = [58, 47, 47]"
  by (simp add: js_def)

lemma in_sep:
  assumes "(r, c') \<in> set (ms True sep_re (s, c))"
  shows "\<exists>sep. s = sep @ r \<and> separator sep \<and> c' = c"
proof -
  from assms have "(r, c') \<in> set (ms True (Lit (js ''://'')) (s, c)) \<or>
      (r, c') \<in> set (ms True (Quant 1 None Esc_s) (s, c))"
    unfolding sep_re_def in_alt .
  then show ?thesis
  proof
    assume "(r, c') \<in> set (ms True (Lit (js ''://'')) (s, c))"
    then obtain t where t: "s = t @ r" "list_all2 (same_cu True) [58, 47, 47] t" "c' = c"
      unfolding in_lit js_sep by blast
    from t(2) have "t = [58, 47, 47]"
      by (simp add: list_all2_Cons1 one_ic)
    then have "separator t" by (simp add: separator_def js_sep)
    with t show ?thesis by blast
  next
    assume "(r, c') \<in> set (ms True (Quant 1 None Esc_s) (s, c))"
    then have "r \<in> set (many is_space 1 None s)" and c: "c' = c" by (auto simp: esc_s_ok)
    then obtain w where w: "s = w @ r" "list_all is_space w" "1 \<le> length w"
      unfolding many_iff by blast
    then have "separator w" by (cases w) (simp_all add: separator_def)
    with w c show ?thesis by blast
  qed
qed

lemma in_scheme_sep:
  assumes "(r, c') \<in> set (ms True (Cat scheme_re sep_re) (s, c))"
  shows "\<exists>tok sep. s = tok @ sep @ r \<and> scheme_token tok \<and> separator sep \<and> c' = c(1 \<mapsto> tok)"
proof -
  from assms obtain sm cm where 1: "(sm, cm) \<in> set (ms True scheme_re (s, c))"
    and 2: "(r, c') \<in> set (ms True sep_re (sm, cm))"
    unfolding in_cat by blast
  from in_scheme[OF 1] obtain tok where "s = tok @ sm" "scheme_token tok" "cm = c(1 \<mapsto> tok)" by blast
  moreover from in_sep[OF 2] obtain sep where "sm = sep @ r" "separator sep" "c' = cm" by blast
  ultimately show ?thesis by blast
qed

subsection \<open>Every match of the pattern has the shape of the unified grammar\<close>

lemma in_regex:
  assumes "(r, c') \<in> set (ms True regex (s, Map.empty))"
  shows "\<exists>w. s = w @ r \<and> match_shape w c' \<and> c' 0 = None"
proof -
  from assms obtain s1 c1 s2 c2 where
    a: "(s1, c1) \<in> set (ms True (Opt (Cat scheme_re sep_re)) (s, Map.empty))" and
    b: "(s2, c2) \<in> set (ms True (Opt cred_prefix_re) (s1, c1))" and
    hp: "(r, c') \<in> set (ms True host_port_re (s2, c2))"
    unfolding regex_def in_cat by blast
  from a consider (none) "s1 = s" "c1 = Map.empty"
    | (some) tok sep where "s = (tok @ sep) @ s1" "scheme_token tok" "separator sep" "c1 = [1 \<mapsto> tok]"
    unfolding in_opt using in_scheme_sep[of s1 c1 s Map.empty] by auto
  then obtain a where a'': "s = a @ s1" "c1 0 = None" "c1 2 = None" "c1 3 = None" "c1 4 = None" 
     "c1 5 = None" "c1 6 = None" "c1 7 = None"
     "(a = [] \<and> c1 1 = None) \<or> (\<exists>tok sep. a = tok @ sep \<and> scheme_token tok \<and> separator sep \<and> c1 1 = Some tok)"
  proof cases
    case none
    then show ?thesis by (intro that[of "[]"]) simp_all
  next
    case some
    then show ?thesis by (intro that[of "tok @ sep"]) auto
  qed
  from b consider (none) "s2 = s1" "c2 = c1"
    | (some) u v where "s1 = (u @ 58 # v @ [64]) @ s2" "prefix_token u" "prefix_token v" "c2 = c1(2 \<mapsto> u, 3 \<mapsto> v)"
    unfolding in_opt using in_cred_prefix[of s2 c2 s1 c1] by auto
  then obtain b where b'': "s1 = b @ s2" "c2 0 = None" "c2 1 = c1 1" "c2 4 = None" 
     "c2 5 = None" "c2 6 = None" "c2 7 = None"
     "(b = [] \<and> c2 2 = None \<and> c2 3 = None) \<or> (\<exists>u v. b = u @ 58 # v @ [64] \<and> prefix_token u \<and> prefix_token v \<and> c2 2 = Some u \<and> c2 3 = Some v)"
  proof cases
    case none
    with a'' show ?thesis by (intro that[of "[]"]) simp_all
  next
    case some
    with a'' show ?thesis by (intro that[of "u @ 58 # v @ [64]"]) auto
  qed
  from in_host_port[OF hp] obtain h p where hp0: "host_text h" "port_text p" and
    "(s2 = h @ 58 # p @ r \<and> c' = c2(4 \<mapsto> h, 5 \<mapsto> p)) \<or>
     (\<exists>x y. s2 = h @ 58 # p @ 58 # x @ 58 # y @ r \<and> suffix_token x \<and> suffix_token y \<and>
        c' = c2(4 \<mapsto> h, 5 \<mapsto> p, 6 \<mapsto> x, 7 \<mapsto> y))"
    by blast
  then consider (none) "s2 = h @ 58 # p @ r" "c' = c2(4 \<mapsto> h, 5 \<mapsto> p)"
    | (some) x y where "s2 = h @ 58 # p @ 58 # x @ 58 # y @ r" "suffix_token x" "suffix_token y"
        "c' = c2(4 \<mapsto> h, 5 \<mapsto> p, 6 \<mapsto> x, 7 \<mapsto> y)"
    by blast
  then obtain d where hp1: "s2 = (h @ 58 # p @ d) @ r"
    "c' 4 = Some h" "c' 5 = Some p" "c' 0 = c2 0" "c' 1 = c2 1" "c' 2 = c2 2" "c' 3 = c2 3"
    "(d = [] \<and> c' 6 = c2 6 \<and> c' 7 = c2 7) \<or> (\<exists>x y. d = 58 # x @ 58 # y \<and> suffix_token x \<and> suffix_token y \<and> c' 6 = Some x \<and> c' 7 = Some y)"
  proof cases
    case none
    then show ?thesis by (intro that[of "[]"]) simp_all
  next
    case some
    then show ?thesis by (intro that[of "58 # x @ 58 # y"]) auto
  qed
  note hp' = hp0 hp1
  have "s = (a @ b @ h @ 58 # p @ d) @ r"
    using a''(1) b''(1) hp'(3) by simp
  moreover have "match_shape (a @ b @ h @ 58 # p @ d) c'"
  proof -
    have A: "(a = [] \<and> c' 1 = None) \<or>
        (\<exists>tok sep. a = tok @ sep \<and> scheme_token tok \<and> separator sep \<and> c' 1 = Some tok)"
      using a''(9) b''(3) hp1(5) by simp
    have B: "(b = [] \<and> c' 2 = None \<and> c' 3 = None) \<or>
        (\<exists>u v. b = u @ 58 # v @ [64] \<and> prefix_token u \<and> prefix_token v \<and> c' 2 = Some u \<and> c' 3 = Some v)"
      using b''(8) hp1(6,7) by simp
    have D: "(d = [] \<and> c' 6 = None \<and> c' 7 = None) \<or>
        (\<exists>x y. d = 58 # x @ 58 # y \<and> suffix_token x \<and> suffix_token y \<and> c' 6 = Some x \<and> c' 7 = Some y)"
      using hp1(8) b''(6,7) by simp
    show ?thesis
      unfolding match_shape_def
      apply (rule exI[of _ a], rule exI[of _ b], rule exI[of _ h], rule exI[of _ p], rule exI[of _ d])
      using A B D hp0 hp1(2,3) by simp
  qed
  moreover have "c' 0 = None" using hp' b'' by simp
  ultimately show ?thesis by blast
qed

lemma match_shape_upd0: "match_shape w c \<Longrightarrow> match_shape w (c(0 \<mapsto> x))"
  unfolding match_shape_def by simp

lemma match_at_shape:
  assumes "match_at True regex s = Some m"
  shows "\<exists>w r. s = w @ r \<and> m 0 = Some w \<and> match_shape w m"
proof -
  from assms obtain r c' rest where l: "ms True regex (s, Map.empty) = (r, c') # rest"
    and m: "m = c'(0 \<mapsto> take (length s - length r) s)"
    by (auto simp: match_at_def split: list.splits)
  then have "(r, c') \<in> set (ms True regex (s, Map.empty))" by simp
  from in_regex[OF this] obtain w where w: "s = w @ r" "match_shape w c'" by blast
  with m have "m 0 = Some w" by simp
  moreover from w m have "match_shape w m" by (simp add: match_shape_upd0)
  ultimately show ?thesis using w(1) by blast
qed

lemma match_shape_found:
  "match True regex s = Some m \<Longrightarrow> \<exists>pre w post. s = pre @ w @ post \<and> m 0 = Some w \<and> match_shape w m"
proof (induction s)
  case Nil
  then show ?case using match_at_shape[of "[]" m] by auto
next
  case (Cons c cs)
  show ?case
  proof (cases "match_at True regex (c # cs)")
    case None
    with Cons.prems have "match True regex cs = Some m" by simp
    from Cons.IH[OF this] obtain pre w post where "cs = pre @ w @ post" "m 0 = Some w" "match_shape w m"
      by blast
    then show ?thesis by (intro exI[of _ "c # pre"] exI[of _ w] exI[of _ post]) simp
  next
    case (Some m')
    with Cons.prems have "match_at True regex (c # cs) = Some m" by simp
    from match_at_shape[OF this] obtain w r where "c # cs = w @ r" "m 0 = Some w" "match_shape w m"
      by blast
    then show ?thesis by (intro exI[of _ "[]"] exI[of _ w] exI[of _ r]) simp
  qed
qed

subsection \<open>Where a run of characters ends\<close>

lemma run_unique:
  assumes "a @ x # b = a' @ x' # b'" "list_all P a" "list_all P a'" "\<not> P x" "\<not> P x'"
  shows "a = a' \<and> x = x' \<and> b = b'"
proof -
  have "takeWhile P (a @ x # b) = a" "takeWhile P (a' @ x' # b') = a'"
    using assms(2-5) by (simp_all add: takeWhile_tail list_all_iff)
  with assms(1) have "a = a'" by simp
  with assms(1) show ?thesis by simp
qed

lemma takeWhile_run: "list_all P a \<Longrightarrow> \<not> P x \<Longrightarrow> takeWhile P (a @ x # b) = a"
  by (simp add: takeWhile_tail list_all_iff)

lemma dropWhile_run: "list_all P a \<Longrightarrow> \<not> P x \<Longrightarrow> dropWhile P (a @ x # b) = x # b"
  by (simp add: dropWhile_append3 list_all_iff dropWhile_append2)

lemma takeWhile_all: "list_all P a \<Longrightarrow> takeWhile P a = a"
  by (simp add: list_all_iff)

lemma many_first_unbounded:
  "list_all p w \<Longrightarrow> mn \<le> length w \<Longrightarrow> (case t of [] \<Rightarrow> True | c # _ \<Rightarrow> \<not> p c) \<Longrightarrow>
   \<exists>rest. many p mn None (w @ t) = t # rest"
proof (induction w arbitrary: mn)
  case Nil
  then show ?case by (cases t) auto
next
  case (Cons a w)
  have "\<exists>rest. many p (mn - 1) None (w @ t) = t # rest"
    using Cons.prems by (intro Cons.IH) auto
  with Cons.prems show ?case by auto
qed

subsection \<open>The colon between the parts\<close>

lemma cat_colon:
  "ms True (Cat (Lit (js '':'')) R) (t, c) =
     (case t of [] \<Rightarrow> [] | a # s1 \<Rightarrow> if a = 58 then ms True R (s1, c) else [])"
  by (cases t) (simp_all add: js_colon one_ic)

lemma suffix_cu_58: "\<not> suffix_cu 58" and prefix_cu_58: "\<not> prefix_cu 58" and prefix_cu_64: "\<not> prefix_cu 64"
  and host_cu_58: "\<not> host_cu 58" and digit_58: "\<not> is_digit 58"
  by (simp_all add: suffix_cu_def prefix_cu_def host_cu_def is_digit_def)

lemma cred_suffix_none: "(case t of [] \<Rightarrow> True | a # _ \<Rightarrow> a \<noteq> 58) \<Longrightarrow> ms True cred_suffix_re (t, c) = []"
  unfolding cred_suffix_re_def cat_colon by (cases t) simp_all

subsection \<open>The credentials before the host\<close>

lemma cred_prefix_exact:
  assumes "prefix_token u" "prefix_token v"
  shows "ms True cred_prefix_re (u @ 58 # v @ 64 # r, c) = [(r, c(2 \<mapsto> u, 3 \<mapsto> v))]"
  using assms unfolding ms_cred_prefix prefix_token_def
  by (simp add: takeWhile_run dropWhile_run prefix_cu_58 prefix_cu_64)

lemma digit_prefix_cu: "is_digit c \<Longrightarrow> prefix_cu c"
  by (rule host_cu_prefix_cu) (rule digit_host_cu)

lemma list_all_mono: "list_all P xs \<Longrightarrow> (\<And>x. P x \<Longrightarrow> Q x) \<Longrightarrow> list_all Q xs"
  by (induction xs) auto

lemma ms_opt_cat: "ms ic (Cat (Opt a) b) st = concat (map (ms ic b) (ms ic a st)) @ ms ic b st"
  by simp

lemma rest_starts:
  assumes "(r, c') \<in> set (ms True (Cat (Opt cred_prefix_re) host_port_re) (s, c))"
  shows "\<exists>a y. s = a @ 58 # y \<and> a \<noteq> [] \<and> list_all prefix_cu a"
proof -
  from assms obtain s1 c1 where 1: "(s1, c1) \<in> set (ms True (Opt cred_prefix_re) (s, c))"
    and 2: "(r, c') \<in> set (ms True host_port_re (s1, c1))"
    unfolding in_cat by blast
  from in_host_port[OF 2] obtain h y where h: "host_text h" "s1 = h @ 58 # y" by auto
  from 1 consider "s1 = s" | u v where "s = u @ 58 # v @ 64 # s1" "prefix_token u"
    unfolding in_opt using in_cred_prefix[of s1 c1 s c] by auto
  then show ?thesis
  proof cases
    case 1
    with h show ?thesis
      by (auto simp: host_text_def intro: list_all_mono host_cu_prefix_cu)
  next
    case 2
    then show ?thesis by (auto simp: prefix_token_def)
  qed
qed

subsection \<open>The scheme token: what the alternatives accept\<close>

lemma toLowerCase_all2: "list_all2 (same_cu True) (toLowerCase t) t"
  by (induction t) (auto simp: toLowerCase_def same_cu_def canonicalize_def)

lemma toLowerCase_host:
  "toLowerCase t = w \<Longrightarrow> list_all (\<lambda>a. (97 \<le> a \<and> a \<le> 122) \<or> (48 \<le> a \<and> a \<le> 57)) w \<Longrightarrow>
   list_all host_cu t"
proof (induction t arbitrary: w)
  case Nil
  then show ?case by simp
next
  case (Cons a t)
  then obtain a' w' where w: "w = a' # w'" "(if 65 \<le> a \<and> a \<le> 90 then a + 32 else a) = a'"
    "toLowerCase t = w'"
    by (auto simp: toLowerCase_def)
  with Cons.prems(2) have "host_cu a" by (auto simp: host_cu_def split: if_splits)
  moreover from Cons.IH[OF w(3)] Cons.prems(2) w(1) have "list_all host_cu t" by simp
  ultimately show ?case by simp
qed

lemma scheme_token_host:
  assumes "scheme_token tok"
  shows "tok \<noteq> []" "list_all host_cu tok"
proof -
  from assms obtain w where w: "toLowerCase tok = w"
    "w = js ''http'' \<or> w = js ''https'' \<or> w = js ''socks4'' \<or> w = js ''socks5'' \<or> w = js ''socks5h''"
    unfolding scheme_token_def by blast
  from w(2) have "list_all (\<lambda>a. (97 \<le> a \<and> a \<le> 122) \<or> (48 \<le> a \<and> a \<le> 57)) w" "w \<noteq> []"
    by (elim disjE; simp add: js_def)+
  with w(1) show "tok \<noteq> []" "list_all host_cu tok"
    using toLowerCase_host[of tok w] by (auto simp: toLowerCase_def)
qed

lemma scheme_complete:
  assumes "scheme_token tok"
  shows "(r, c(1 \<mapsto> tok)) \<in> set (ms True scheme_re (tok @ r, c))"
proof -
  have "\<exists>t. tok @ r = t @ r \<and> list_all2 (same_cu True) (toLowerCase tok) t"
    using toLowerCase_all2 by blast
  with assms have "(r, c) \<in> set (ms True (Alt (Lit (js ''http'')) (Alt (Lit (js ''https''))
     (Alt (Lit (js ''socks4'')) (Alt (Lit (js ''socks5'')) (Lit (js ''socks5h'')))))) (tok @ r, c))"
    unfolding in_alt in_lit scheme_token_def by metis
  then show ?thesis
    unfolding scheme_re_def in_group by (intro exI[of _ c]) simp
qed

lemma separator_cases:
  assumes "separator sep"
  obtains (lit) "sep = [58, 47, 47]" | (ws) a sep' where "sep = a # sep'" "is_space a" "list_all is_space sep'"
  using assms unfolding separator_def js_sep by (cases sep) auto

lemma sep_complete:
  assumes "separator sep"
  shows "(r, c) \<in> set (ms True sep_re (sep @ r, c))"
  using assms
proof (cases rule: separator_cases)
  case lit
  have "list_all2 (same_cu True) [58, 47, 47] [58, 47, 47]"
    by (simp add: one_ic)
  with lit have "(r, c) \<in> set (ms True (Lit (js ''://'')) (sep @ r, c))"
    unfolding in_lit js_sep by blast
  then show ?thesis unfolding sep_re_def in_alt by blast
next
  case (ws a sep')
  then have "r \<in> set (many is_space 1 None (sep @ r))"
    unfolding many_iff by (intro exI[of _ sep]) simp
  then have "(r, c) \<in> set (ms True (Quant 1 None Esc_s) (sep @ r, c))"
    by (simp add: esc_s_ok)
  then show ?thesis unfolding sep_re_def in_alt by blast
qed

lemma scheme_sep_complete:
  "scheme_token tok \<Longrightarrow> separator sep \<Longrightarrow>
   (r, c(1 \<mapsto> tok)) \<in> set (ms True (Cat scheme_re sep_re) (tok @ sep @ r, c))"
  unfolding in_cat using scheme_complete sep_complete by blast

lemma is_space_not_prefix_cu: "is_space a \<Longrightarrow> \<not> prefix_cu a"
  by (simp add: prefix_cu_def)

lemma scheme_sep_unique:
  assumes e: "(s1, c1) \<in> set (ms True (Cat scheme_re sep_re) (u @ x # z, c))"
    and u: "list_all prefix_cu u" "\<not> prefix_cu x"
  shows "scheme_token u \<and> c1 = c(1 \<mapsto> u) \<and> (\<exists>sep. separator sep \<and> sep @ s1 = x # z)"
proof -
  from in_scheme_sep[OF e] obtain tok sep where t: "u @ x # z = tok @ sep @ s1"
    "scheme_token tok" "separator sep" "c1 = c(1 \<mapsto> tok)" by blast
  from t(3) obtain a sep' where sep: "sep = a # sep'" "\<not> prefix_cu a"
    by (cases rule: separator_cases) (auto simp: prefix_cu_58 is_space_not_prefix_cu)
  from scheme_token_host(2)[OF t(2)] have "list_all prefix_cu tok"
    by (rule list_all_mono) (rule host_cu_prefix_cu)
  with t(1) sep u have "u = tok \<and> x = a \<and> z = sep' @ s1"
    by (intro run_unique[of u x z tok a "sep' @ s1" prefix_cu]) simp_all
  with t sep show ?thesis by auto
qed

lemma concat_map_only:
  "\<forall>e \<in> set L. F e = [] \<or> e = e0 \<Longrightarrow> e0 \<in> set L \<Longrightarrow> F e0 = y # ys \<Longrightarrow>
   \<exists>r. concat (map F L) = y # r"
proof (induction L)
  case Nil
  then show ?case by simp
next
  case (Cons e L)
  show ?case
  proof (cases "e = e0")
    case True
    with Cons.prems(3) show ?thesis by simp
  next
    case False
    with Cons.prems have "F e = []" "e0 \<in> set L" "\<forall>e \<in> set L. F e = [] \<or> e = e0" by auto
    with Cons.IH Cons.prems(3) show ?thesis by simp
  qed
qed

subsection \<open>The first match of the whole pattern on a written proxy\<close>

declare ms.simps [simp del]

lemma nonempty_member: "xs \<noteq> [] \<Longrightarrow> \<exists>r c. (r, c) \<in> set xs"
  by (cases xs) auto

lemma rest_text_starts:
  assumes "prefix_ok pre" "host_text h"
  shows "\<exists>a r. prefix_text pre @ h @ z = a # r \<and> prefix_cu a"
proof (cases pre)
  case None
  with assms(2) show ?thesis
    by (cases h) (auto simp: host_text_def host_cu_prefix_cu)
next
  case (Some uv)
  obtain u v where "uv = (u, v)" by (cases uv)
  with Some assms(1) show ?thesis by (cases u) (auto simp: prefix_token_def)
qed

lemma rest_dead_space:
  assumes "is_space b"
  shows "ms True (Cat (Opt cred_prefix_re) host_port_re) (b # r, c) = []"
proof (rule ccontr)
  assume "ms True (Cat (Opt cred_prefix_re) host_port_re) (b # r, c) \<noteq> []"
  from nonempty_member[OF this]
  obtain r' c' where "(r', c') \<in> set (ms True (Cat (Opt cred_prefix_re) host_port_re) (b # r, c))"
    by blast
  from rest_starts[OF this] obtain a y where "b # r = a @ 58 # y" "a \<noteq> []" "list_all prefix_cu a"
    by blast
  then have "prefix_cu b" by (cases a) auto
  with assms show False by (simp add: prefix_cu_def)
qed

lemma rest_dead_at:
  assumes "list_all prefix_cu v"
  shows "ms True (Cat (Opt cred_prefix_re) host_port_re) (v @ 64 # z, c) = []"
proof (rule ccontr)
  assume "ms True (Cat (Opt cred_prefix_re) host_port_re) (v @ 64 # z, c) \<noteq> []"
  from nonempty_member[OF this]
  obtain r' c' where "(r', c') \<in> set (ms True (Cat (Opt cred_prefix_re) host_port_re) (v @ 64 # z, c))"
    by blast
  from rest_starts[OF this] obtain a y where a: "v @ 64 # z = a @ 58 # y" "list_all prefix_cu a"
    by blast
  from run_unique[OF a(1) assms a(2) prefix_cu_64 prefix_cu_58] show False by simp
qed

lemma scheme_absent:
  assumes "prefix_ok pre" "host_text h" "port_text p"
    and e: "(s1, c1) \<in> set (ms True (Cat scheme_re sep_re) (prefix_text pre @ h @ 58 # p @ d, c))"
  shows "ms True (Cat (Opt cred_prefix_re) host_port_re) (s1, c1) = []"
proof (cases pre)
  case None
  from assms(2) have h: "list_all prefix_cu h"
    by (auto simp: host_text_def intro: list_all_mono host_cu_prefix_cu)
  from assms(3) obtain a p' where p: "p = a # p'" "is_digit a"
    by (cases p) (auto simp: port_text_def)
  from e None have "(s1, c1) \<in> set (ms True (Cat scheme_re sep_re) (h @ 58 # (p @ d), c))" by simp
  from scheme_sep_unique[OF this h prefix_cu_58] obtain sep where
    sep: "separator sep" "sep @ s1 = 58 # p @ d" by blast
  from sep(1) have False
  proof (cases rule: separator_cases)
    case lit
    with sep(2) p show False by (simp add: is_digit_def)
  next
    case (ws b sep')
    with sep(2) show False by (simp add: is_space_def)
  qed
  then show ?thesis ..
next
  case (Some uv)
  obtain u v where uv: "uv = (u, v)" by (cases uv)
  with Some assms(1) have u: "list_all prefix_cu u" and v: "v \<noteq> []" "list_all prefix_cu v"
    by (simp_all add: prefix_token_def)
  let ?z = "h @ 58 # p @ d"
  from e Some uv have "(s1, c1) \<in> set (ms True (Cat scheme_re sep_re) (u @ 58 # (v @ 64 # ?z), c))"
    by simp
  from scheme_sep_unique[OF this u prefix_cu_58] obtain sep where
    sep: "separator sep" "sep @ s1 = 58 # v @ 64 # ?z" by blast
  from sep(1) show ?thesis
  proof (cases rule: separator_cases)
    case lit
    with sep(2) have eq: "v @ 64 # ?z = 47 # 47 # s1" by simp
    from v(1) obtain v1 vr where v1: "v = v1 # vr" by (cases v) auto
    show ?thesis
    proof (cases vr)
      case Nil
      with eq v1 show ?thesis by simp
    next
      case (Cons v2 v')
      with eq v1 v(2) have "s1 = v' @ 64 # ?z" "list_all prefix_cu v'" by simp_all
      then show ?thesis using rest_dead_at by simp
    qed
  next
    case (ws b sep')
    with sep(2) show ?thesis by (simp add: is_space_def)
  qed
qed

lemma scheme_present:
  assumes tok: "scheme_token tok" and sep: "separator sep" and s2: "s2 = b # r2" "prefix_cu b"
    and e: "(s1, c1) \<in> set (ms True (Cat scheme_re sep_re) (tok @ sep @ s2, c))"
  shows "ms True (Cat (Opt cred_prefix_re) host_port_re) (s1, c1) = [] \<or> (s1, c1) = (s2, c(1 \<mapsto> tok))"
proof -
  from scheme_token_host(2)[OF tok] have t: "list_all prefix_cu tok"
    by (rule list_all_mono) (rule host_cu_prefix_cu)
  from s2 have nb: "\<not> is_space b" by (simp add: prefix_cu_def)
  from sep obtain x sepr where x: "sep = x # sepr" "\<not> prefix_cu x"
    by (cases rule: separator_cases) (auto simp: prefix_cu_58 is_space_not_prefix_cu)
  from e x have "(s1, c1) \<in> set (ms True (Cat scheme_re sep_re) (tok @ x # (sepr @ s2), c))" by simp
  from scheme_sep_unique[OF this t x(2)] obtain sep' where
    c1: "c1 = c(1 \<mapsto> tok)" and sep': "separator sep'" "sep' @ s1 = sep @ s2"
    using x by auto
  from sep show ?thesis
  proof (cases rule: separator_cases)
    case lit
    from sep'(1) show ?thesis
    proof (cases rule: separator_cases)
      case lit': lit
      with lit sep'(2) c1 show ?thesis by simp
    next
      case (ws a' sepr')
      with lit sep'(2) show ?thesis by (simp add: is_space_def)
    qed
  next
    case (ws a sepr0)
    from sep'(1) show ?thesis
    proof (cases rule: separator_cases)
      case lit
      with ws sep'(2) show ?thesis by (simp add: is_space_def)
    next
      case ws': (ws a' sepr')
      with ws sep'(2) have eq: "sepr' @ s1 = sepr0 @ b # r2" using s2 by simp
      show ?thesis
      proof (cases s1)
        case Nil
        with eq have "b \<in> set sepr'" by auto
        with ws'(3) nb show ?thesis by (simp add: list_all_iff)
      next
        case (Cons b1 r1)
        show ?thesis
        proof (cases "is_space b1")
          case True
          with Cons show ?thesis by (simp add: rest_dead_space del: ms.simps)
        next
          case False
          from eq Cons have "sepr' @ b1 # r1 = sepr0 @ b # r2" by simp
          from run_unique[OF this ws'(3) ws(3) False nb] Cons s2 c1 show ?thesis by simp
        qed
      qed
    qed
  qed
qed

text \<open>
  The first match on a written proxy, with text after it that the pattern cannot draw in:
  the match ends where the written proxy ends.
\<close>

lemma space_facts: "is_space a \<Longrightarrow> a \<noteq> 58 \<and> a \<noteq> 64 \<and> \<not> is_digit a \<and> \<not> suffix_cu a \<and> \<not> prefix_cu a"
  by (auto simp: is_space_def is_digit_def suffix_cu_def prefix_cu_def)

lemma trail_ok_suffix:
  assumes "trail_ok pre p (Some xy) r"
  shows "case r of [] \<Rightarrow> True | a # _ \<Rightarrow> \<not> suffix_cu a"
  using assms space_facts unfolding trail_ok_def by (cases r) (auto simp: suffix_cu_58)

lemma trail_ok_port:
  assumes "trail_ok pre p None r"
  shows "case r of [] \<Rightarrow> True | a # _ \<Rightarrow> a \<noteq> 58 \<and> (\<not> is_digit a \<or> length p = 5)"
  using assms space_facts unfolding trail_ok_def by (cases r) auto

lemma trail_ok_at:
  assumes "trail_ok None p None r"
  shows "case dropWhile prefix_cu r of [] \<Rightarrow> True | b # _ \<Rightarrow> b \<noteq> 64"
proof (cases r)
  case Nil
  then show ?thesis by simp
next
  case (Cons a r')
  show ?thesis
  proof (cases "is_space a")
    case True
    with Cons space_facts[of a] show ?thesis by simp
  next
    case False
    with assms Cons have "64 \<notin> set r" by (simp add: trail_ok_def)
    moreover have "set (dropWhile prefix_cu r) \<subseteq> set r" using set_dropWhileD by fastforce
    ultimately show ?thesis by (cases "dropWhile prefix_cu r") (auto simp del: dropWhile_eq_Nil_conv)
  qed
qed

lemma cred_suffix_first:
  assumes "suffix_token x" "suffix_token y" "case r of [] \<Rightarrow> True | a # _ \<Rightarrow> \<not> suffix_cu a"
  shows "\<exists>rest. ms True cred_suffix_re (58 # x @ 58 # y @ r, c) = (r, c(6 \<mapsto> x, 7 \<mapsto> y)) # rest"
proof -
  from assms have x: "x \<noteq> []" "list_all suffix_cu x" and y: "y \<noteq> []" "list_all suffix_cu y"
    by (simp_all add: suffix_token_def)
  have 1: "ms True (Cat (Group 6 (Quant (Suc 0) None suf_tok)) (Cat (Lit (js '':'')) R)) (x @ 58 # y @ r, c) =
      ms True R (y @ r, c(6 \<mapsto> x))" for R
  proof (subst cat_group_plus)
    show "ms True (Cat (Lit (js '':'')) R) (a # r, c') = []" if "chm_ok True suf_tok a" for a r c'
      using that by (cases "a = 58") (simp_all add: cat_colon suf_tok_ok suffix_cu_58)
  qed (use x in \<open>simp add: suf_tok_ok takeWhile_run dropWhile_run suffix_cu_58 cat_colon\<close>)
  from many_first_unbounded[of suffix_cu y "Suc 0" r] y assms(3)
  obtain rest where "many suffix_cu (Suc 0) None (y @ r) = r # rest"
    by (cases y) auto
  then have 2: "ms True (Group 7 (Quant (Suc 0) None suf_tok)) (y @ r, c(6 \<mapsto> x)) =
      (r, c(6 \<mapsto> x, 7 \<mapsto> y)) #
        map (\<lambda>r'. (r', c(6 \<mapsto> x, 7 \<mapsto> take (length (y @ r) - length r') (y @ r)))) rest"
    unfolding ms_group_quant suf_tok_ok by simp
  show ?thesis
    unfolding cred_suffix_re_def One_nat_def cat_colon
    by (simp add: 1 2)
qed

lemma host_port_first:
  assumes "host_text h" "port_text p" "suffix_ok suf" "trail_ok pre p suf r"
  shows "\<exists>rest. ms True host_port_re (h @ 58 # p @ suffix_text suf @ r, c) =
     (r, c(4 \<mapsto> h, 5 \<mapsto> p, 6 := (if suf = None then c 6 else map_option fst suf),
         7 := (if suf = None then c 7 else map_option snd suf))) # rest"
proof -
  let ?t = "suffix_text suf @ r"
  from assms have h: "h \<noteq> []" "list_all host_cu h" and p: "p \<noteq> []" "length p \<le> 5" "list_all is_digit p"
    by (simp_all add: host_text_def port_text_def)
  have t: "(case ?t of [] \<Rightarrow> True | a # _ \<Rightarrow> \<not> is_digit a \<or> length p = 5)"
  proof (cases suf)
    case None
    with trail_ok_port[of pre p r] assms(4) show ?thesis by (cases r) auto
  next
    case (Some xy)
    then show ?thesis by (cases xy) (auto simp: digit_58)
  qed
  have 1: "ms True host_port_re (h @ 58 # p @ ?t, c) =
      ms True (Cat (Group 5 (Quant (Suc 0) (Some 5) Esc_d)) (Opt cred_suffix_re)) (p @ ?t, c(4 \<mapsto> h))"
    unfolding host_port_re_def One_nat_def
  proof (subst cat_group_plus)
    show "ms True (Cat (Lit (js '':'')) R) (a # r, c') = []" if "chm_ok True host_tok a" for a r c' R
      using that by (cases "a = 58") (simp_all add: cat_colon host_tok_ok host_cu_58)
  qed (use h in \<open>simp add: host_tok_ok takeWhile_run dropWhile_run host_cu_58 cat_colon\<close>)
  from many_first[of is_digit p "Suc 0" 5 ?t] p t
  obtain rest where "many is_digit (Suc 0) (Some 5) (p @ ?t) = ?t # rest"
    by (cases p) auto
  then have 2: "ms True (Group 5 (Quant (Suc 0) (Some 5) Esc_d)) (p @ ?t, c(4 \<mapsto> h)) =
      (?t, c(4 \<mapsto> h, 5 \<mapsto> p)) #
        map (\<lambda>r'. (r', c(4 \<mapsto> h, 5 \<mapsto> take (length (p @ ?t) - length r') (p @ ?t)))) rest"
    unfolding ms_group_quant esc_d_ok by simp
  have 3: "\<exists>rest. ms True (Opt cred_suffix_re) (?t, c(4 \<mapsto> h, 5 \<mapsto> p)) =
     (r, c(4 \<mapsto> h, 5 \<mapsto> p, 6 := (if suf = None then c 6 else map_option fst suf),
         7 := (if suf = None then c 7 else map_option snd suf))) # rest"
  proof (cases suf)
    case None
    have e: "c(4 \<mapsto> h, 5 \<mapsto> p, 6 := c 6, 7 := c 7) = c(4 \<mapsto> h, 5 \<mapsto> p)"
      by (simp add: fun_eq_iff)
    from trail_ok_port[of pre p r] assms(4) None
    have "case r of [] \<Rightarrow> True | a # _ \<Rightarrow> a \<noteq> 58" by (cases r) auto
    from cred_suffix_none[OF this] None e show ?thesis by (simp add: ms.simps(5))
  next
    case (Some xy)
    obtain x y where xy: "xy = (x, y)" by (cases xy)
    with Some assms(3) have "suffix_token x" "suffix_token y" by simp_all
    from cred_suffix_first[OF this trail_ok_suffix, of pre p xy r "c(4 \<mapsto> h, 5 \<mapsto> p)"]
      assms(4) Some xy show ?thesis
      by (auto simp: ms.simps(5))
  qed
  then obtain rest3 where 3: "ms True (Opt cred_suffix_re) (?t, c(4 \<mapsto> h, 5 \<mapsto> p)) =
     (r, c(4 \<mapsto> h, 5 \<mapsto> p, 6 := (if suf = None then c 6 else map_option fst suf),
         7 := (if suf = None then c 7 else map_option snd suf))) # rest3" by blast
  show ?thesis
    unfolding 1 ms.simps(3)[of True "Group 5 (Quant (Suc 0) (Some 5) Esc_d)"] 2
    by (simp add: 3)
qed

lemma no_at_after_port:
  assumes "port_text p" "trail_ok None p suf r"
  shows "case dropWhile prefix_cu (p @ suffix_text suf @ r) of [] \<Rightarrow> True | b # _ \<Rightarrow> b \<noteq> 64"
proof -
  from assms have p: "list_all prefix_cu p"
    by (auto simp: port_text_def intro: list_all_mono digit_prefix_cu)
  show ?thesis
  proof (cases suf)
    case None
    from p have "dropWhile prefix_cu (p @ r) = dropWhile prefix_cu r"
      by (simp add: list_all_iff)
    with None trail_ok_at[of p r] assms(2) show ?thesis by simp
  next
    case (Some xy)
    then obtain x y where "suffix_text suf = 58 # x @ 58 # y" by (cases xy) auto
    with p show ?thesis by (simp add: dropWhile_run prefix_cu_58)
  qed
qed

lemma cred_prefix_none:
  assumes "host_text h" "port_text p" "suffix_ok suf" "trail_ok None p suf r"
  shows "ms True cred_prefix_re (h @ 58 # p @ suffix_text suf @ r, c) = []"
proof -
  from assms have h: "h \<noteq> []" "list_all prefix_cu h" and p: "p \<noteq> []" "list_all prefix_cu p"
    by (auto simp: host_text_def port_text_def intro: list_all_mono host_cu_prefix_cu digit_prefix_cu)
  have "takeWhile prefix_cu (p @ suffix_text suf @ r) \<noteq> []"
    using p by (cases p) auto
  with no_at_after_port[OF assms(2,4)] show ?thesis
    using h unfolding ms_cred_prefix
    by (cases "dropWhile prefix_cu (p @ suffix_text suf @ r)")
       (simp_all add: takeWhile_run dropWhile_run prefix_cu_58 del: dropWhile_eq_Nil_conv)
qed

lemma rest_first:
  assumes "prefix_ok pre" "host_text h" "port_text p" "suffix_ok suf" "trail_ok pre p suf r"
    and c: "c 2 = None" "c 3 = None" "c 6 = None" "c 7 = None"
  shows "\<exists>rest c'. ms True (Cat (Opt cred_prefix_re) host_port_re)
            (prefix_text pre @ h @ 58 # p @ suffix_text suf @ r, c) = (r, c') # rest \<and>
          c' 1 = c 1 \<and> c' 2 = map_option fst pre \<and> c' 3 = map_option snd pre \<and>
          c' 4 = Some h \<and> c' 5 = Some p \<and> c' 6 = map_option fst suf \<and> c' 7 = map_option snd suf"
proof (cases pre)
  case None
  from host_port_first[OF assms(2-5), of c] obtain rest where
    "ms True host_port_re (h @ 58 # p @ suffix_text suf @ r, c) =
       (r, c(4 \<mapsto> h, 5 \<mapsto> p, 6 := (if suf = None then c 6 else map_option fst suf),
         7 := (if suf = None then c 7 else map_option snd suf))) # rest" by blast
  with None c assms(5) show ?thesis
    unfolding ms_opt_cat by (simp add: cred_prefix_none[OF assms(2-4)])
next
  case (Some uv)
  obtain u v where uv: "uv = (u, v)" by (cases uv)
  with Some assms(1) have t: "prefix_token u" "prefix_token v" by simp_all
  let ?c = "c(2 \<mapsto> u, 3 \<mapsto> v)"
  from host_port_first[OF assms(2-5), of ?c] obtain rest where
    "ms True host_port_re (h @ 58 # p @ suffix_text suf @ r, ?c) =
       (r, ?c(4 \<mapsto> h, 5 \<mapsto> p, 6 := (if suf = None then ?c 6 else map_option fst suf),
         7 := (if suf = None then ?c 7 else map_option snd suf))) # rest" by blast
  with Some uv c show ?thesis
    unfolding ms_opt_cat
    using cred_prefix_exact[OF t, of "h @ 58 # p @ suffix_text suf @ r" c]
    by simp
qed

lemma regex_first:
  assumes "tokens_ok (sch, pre, h, p, suf)" "trail_ok pre p suf r"
  shows "\<exists>rest c'. ms True regex (proxy_text (sch, pre, h, p, suf) @ r, Map.empty) = (r, c') # rest \<and>
          c' 1 = map_option fst sch \<and> c' 2 = map_option fst pre \<and> c' 3 = map_option snd pre \<and>
          c' 4 = Some h \<and> c' 5 = Some p \<and> c' 6 = map_option fst suf \<and> c' 7 = map_option snd suf"
proof -
  from assms have ok: "scheme_ok sch" "prefix_ok pre" "host_text h" "port_text p" "suffix_ok suf"
    by simp_all
  let ?R = "Cat (Opt cred_prefix_re) host_port_re"
  let ?s2 = "prefix_text pre @ h @ 58 # p @ suffix_text suf @ r"
  have split: "ms True regex (s, c) =
      concat (map (ms True ?R) (ms True (Cat scheme_re sep_re) (s, c))) @ ms True ?R (s, c)" for s c
    unfolding regex_def by (rule ms_opt_cat)
  show ?thesis
  proof (cases sch)
    case None
    have "\<forall>e \<in> set (ms True (Cat scheme_re sep_re) (?s2, Map.empty)). ms True ?R e = []"
      using scheme_absent[OF ok(2,3,4), of _ _ "suffix_text suf @ r"] by auto
    then have dead: "concat (map (ms True ?R) (ms True (Cat scheme_re sep_re) (?s2, Map.empty))) = []"
      by simp
    from rest_first[OF ok(2-5) assms(2), of Map.empty] None show ?thesis
      unfolding split by (simp add: dead)
  next
    case (Some ts)
    obtain tok sep where ts: "ts = (tok, sep)" by (cases ts)
    with Some ok(1) have tok: "scheme_token tok" and sep: "separator sep" by simp_all
    from rest_text_starts[OF ok(2,3), of "58 # p @ suffix_text suf @ r"]
    obtain b r2 where s2: "?s2 = b # r2" "prefix_cu b" by auto
    from rest_first[OF ok(2-5) assms(2), of "[1 \<mapsto> tok]"] obtain rest c' where
      first: "ms True ?R (?s2, [1 \<mapsto> tok]) = (r, c') # rest" and
      c': "c' 1 = Some tok" "c' 2 = map_option fst pre" "c' 3 = map_option snd pre"
          "c' 4 = Some h" "c' 5 = Some p" "c' 6 = map_option fst suf" "c' 7 = map_option snd suf"
      by auto
    let ?L = "ms True (Cat scheme_re sep_re) (tok @ sep @ ?s2, Map.empty)"
    have only: "\<forall>e \<in> set ?L. ms True ?R e = [] \<or> e = (?s2, [1 \<mapsto> tok])"
      using scheme_present[OF tok sep s2] by auto
    have mem: "(?s2, [1 \<mapsto> tok]) \<in> set ?L"
      using scheme_sep_complete[OF tok sep, of ?s2 Map.empty] by simp
    from concat_map_only[OF only mem first] obtain r' where
      "concat (map (ms True ?R) ?L) = (r, c') # r'" by blast
    with Some ts c' show ?thesis
      unfolding split by simp
  qed
qed

subsection \<open>From the match array to the descriptor\<close>

lemma trim_id: "s \<noteq> [] \<Longrightarrow> \<not> is_space (hd s) \<Longrightarrow> \<not> is_space (last s) \<Longrightarrow> trim s = s"
proof -
  assume s: "s \<noteq> []" "\<not> is_space (hd s)" "\<not> is_space (last s)"
  then have 1: "dropWhile is_space s = s" by (cases s) auto
  from s have "rev s \<noteq> []" "\<not> is_space (hd (rev s))" by (simp_all add: hd_rev)
  then have "dropWhile is_space (rev s) = rev s" by (cases "rev s") auto
  with 1 show ?thesis by (simp add: trim_def)
qed

lemma digits_val_foldl:
  "0 \<le> a \<Longrightarrow> list_all is_digit ds \<Longrightarrow> 0 \<le> foldl (\<lambda>a c. 10 * a + (int c - 48)) a ds"
  by (induction ds arbitrary: a) (auto simp: is_digit_def)

lemma digits_val_nonneg: "list_all is_digit ds \<Longrightarrow> 0 \<le> digits_val ds"
  unfolding digits_val_def by (rule digits_val_foldl) simp_all

lemma parseInt_port:
  assumes "port_text p"
  shows "parseInt p = Some (digits_val p)"
proof -
  from assms obtain a p' where p: "p = a # p'" "is_digit a" "list_all is_digit p"
    by (cases p) (auto simp: port_text_def)
  then have 1: "dropWhile is_space p = p" "a \<noteq> 45" "a \<noteq> 43"
    by (auto simp: is_digit_def is_space_def)
  from p have 2: "takeWhile is_digit p = p" by (simp add: takeWhile_all)
  show ?thesis
    unfolding parseInt_def 1(1) using p(1) 1(2,3) 2 by (simp add: Let_def)
qed

lemma match_at_match: "match_at ic r s = Some m \<Longrightarrow> match ic r s = Some m"
  by (cases s) simp_all

subsection \<open>Every descriptor comes from a match of that shape\<close>

lemma parse_some:
  assumes "smartParseProxy t = Some d"
  obtains m pre w post h p n where
    "trim t = pre @ w @ post" "match True regex (trim t) = Some m" "m 0 = Some w" "match_shape w m"
    "m 4 = Some h" "m 5 = Some p" "host_text h" "port_text p" "\<not> only_dots h"
    "parseInt p = Some n" "0 \<le> n" "n \<le> 65535"
    "d = \<lparr>type = Str (resolve_type (toLowerCase (js_or (m 1) []))), host = Str h, port = Str p,
          user = Str (js_or (m 2) (js_or (m 6) [])), pass = Str (js_or (m 3) (js_or (m 7) []))\<rparr>"
proof -
  from assms have ne: "trim t \<noteq> []"
    by (auto simp: smartParseProxy_def Let_def split: if_splits)
  with assms obtain m where m: "match True regex (trim t) = Some m"
    by (cases "match True regex (trim t)") (auto simp: smartParseProxy_def Let_def)
  from match_shape_found[OF m] obtain pre w post where
    w: "trim t = pre @ w @ post" "m 0 = Some w" "match_shape w m" by blast
  from w(3) obtain h p where hp: "m 4 = Some h" "m 5 = Some p" "host_text h" "port_text p"
    unfolding match_shape_def by blast
  from assms ne m hp(1,2) have chk: "\<not> only_dots h"
    "(case parseInt p of None \<Rightarrow> False | Some n \<Rightarrow> \<not> (n < 0 \<or> 65535 < n))"
    and d: "d = \<lparr>type = Str (resolve_type (toLowerCase (js_or (m 1) []))), host = Str h, port = Str p,
          user = Str (js_or (m 2) (js_or (m 6) [])), pass = Str (js_or (m 3) (js_or (m 7) []))\<rparr>"
    by (auto simp: smartParseProxy_def Let_def entry_def split: if_splits option.splits)
  from chk(2) obtain n where n: "parseInt p = Some n" "0 \<le> n" "n \<le> 65535"
    by (cases "parseInt p") auto
  from w(1) m w(2,3) hp chk(1) n d show thesis by (rule that)
qed

lemma match_shape_proxy_shaped: "match_shape w m \<Longrightarrow> proxy_shaped w"
  unfolding match_shape_def proxy_shaped_def scheme_part_def prefix_part_def suffix_part_def
  by blast

lemma seven_notations_proxy_shaped: "seven_notations w \<Longrightarrow> proxy_shaped w"
  unfolding seven_notations_def proxy_shaped_def by blast

lemma proxy_shaped_end:
  assumes "proxy_shaped w"
  shows "is_digit (last w) \<or> 3 \<le> count_list w 58"
proof -
  from assms obtain a b h p d where w: "w = a @ b @ h @ 58 # p @ d" "port_text p"
    "d = [] \<or> suffix_part d"
    unfolding proxy_shaped_def by blast
  show ?thesis
  proof (cases "d = []")
    case True
    with w(1,2) have "last w = last p" "is_digit (last p)"
      by (auto simp: port_text_def list_all_iff)
    then show ?thesis by simp
  next
    case False
    with w(3) obtain x y where "d = 58 # x @ 58 # y" unfolding suffix_part_def by blast
    with w(1) show ?thesis by simp
  qed
qed

lemma colon_digit_mid: "is_digit d \<Longrightarrow> colon_digit (xs @ 58 # d # ys)"
  by (induction xs rule: colon_digit.induct) auto

lemma match_shape_colon_digit:
  assumes "match_shape w m"
  shows "colon_digit (pre @ w @ post)"
proof -
  from assms obtain a b h p d where w: "w = a @ b @ h @ 58 # p @ d" "port_text p"
    unfolding match_shape_def by blast
  from w(2) obtain x p' where "p = x # p'" "is_digit x" by (cases p) (auto simp: port_text_def)
  with w(1) have "pre @ w @ post = (pre @ a @ b @ h) @ 58 # x # (p' @ d @ post)" by simp
  with \<open>is_digit x\<close> show ?thesis by (simp only: colon_digit_mid)
qed

lemma match_shape_colon: "match_shape w m \<Longrightarrow> 58 \<in> set w"
  unfolding match_shape_def by auto

lemma trim_subset: "set (trim s) \<subseteq> set s"
proof -
  have "set (trim s) \<subseteq> set (dropWhile is_space s)"
    unfolding trim_def using set_dropWhileD by fastforce
  also have "\<dots> \<subseteq> set s" using set_dropWhileD by fastforce
  finally show ?thesis .
qed

lemma trim_spaces: "list_all is_space s \<Longrightarrow> trim s = []"
proof -
  assume "list_all is_space s"
  then have d: "dropWhile is_space s = []" by (simp add: list_all_iff)
  show ?thesis unfolding trim_def d by simp
qed

subsection \<open>The type chosen for a scheme token\<close>

lemma resolve_none: "resolve_type (toLowerCase []) = js ''http''"
  by (simp add: resolve_type_def toLowerCase_def js_def)

lemma resolve_type_range:
  "resolve_type r = js ''http'' \<or> resolve_type r = js ''socks4'' \<or> resolve_type r = js ''socks5''"
  by (simp add: resolve_type_def)

subsection \<open>Where the search starts\<close>

text \<open>
  \<^verbatim>\<open>match\<close> tries the positions one after the other: the positions at which the pattern
  has no match are passed over, and a position at which it has one ends the search.
\<close>

lemma match_skip:
  "(\<And>i. i < length l \<Longrightarrow> ms ic r (drop i l @ z, Map.empty) = []) \<Longrightarrow>
   match ic r (l @ z) = match ic r z"
proof (induction l)
  case Nil
  then show ?case by simp
next
  case (Cons a l)
  from Cons.prems[of 0] have "match_at ic r (a # l @ z) = None"
    by (simp add: match_at_def)
  moreover have "match ic r (l @ z) = match ic r z"
  proof (rule Cons.IH)
    fix i assume "i < length l"
    with Cons.prems[of "Suc i"] show "ms ic r (drop i l @ z, Map.empty) = []" by simp
  qed
  ultimately show ?case by simp
qed

lemma match_found: "ms ic r (z, Map.empty) \<noteq> [] \<Longrightarrow> \<exists>m. match ic r (pre @ z) = Some m"
proof (induction pre)
  case Nil
  then obtain m where "match_at ic r z = Some m"
    by (cases "ms ic r (z, Map.empty)") (auto simp: match_at_def)
  then show ?case using match_at_match by auto
next
  case (Cons a pre)
  then show ?case by (cases "match_at ic r (a # pre @ z)") auto
qed

subsection \<open>Words before a written proxy\<close>

lemma prefix_before_colon:
  assumes "L @ z = B @ 58 # y" "58 \<notin> set L"
  shows "\<exists>us. L @ us = B"
proof -
  from assms(1) obtain us where "(L = B @ us \<and> us @ z = 58 # y) \<or> (L @ us = B \<and> z = us @ 58 # y)"
    unfolding append_eq_append_conv2 by blast
  then show ?thesis
  proof
    assume a: "L = B @ us \<and> us @ z = 58 # y"
    show ?thesis
    proof (cases us)
      case Nil
      with a show ?thesis by simp
    next
      case (Cons u us')
      with a have "58 \<in> set L" by auto
      with assms(2) show ?thesis by simp
    qed
  next
    assume "L @ us = B \<and> z = us @ 58 # y"
    then show ?thesis by blast
  qed
qed

lemma host_cu_not_space: "host_cu c \<Longrightarrow> \<not> is_space c"
  using host_cu_prefix_cu by (auto simp: prefix_cu_def)

text \<open>
  No match starts inside text that has no colon and ends in white space, unless a scheme
  token stands right before that white space.
\<close>

lemma no_start_words:
  assumes L: "L \<noteq> []" "58 \<notin> set L" "is_space (last L)"
    and ns: "\<And>tok us. L = tok @ us \<Longrightarrow> scheme_token tok \<Longrightarrow> us \<noteq> [] \<Longrightarrow> list_all is_space us \<Longrightarrow> False"
  shows "ms True regex (L @ z, c) = []"
proof (rule ccontr)
  assume "ms True regex (L @ z, c) \<noteq> []"
  from nonempty_member[OF this] obtain r c' where "(r, c') \<in> set (ms True regex (L @ z, c))" by blast
  then obtain s1 c1 where a: "(s1, c1) \<in> set (ms True (Opt (Cat scheme_re sep_re)) (L @ z, c))"
    and R: "(r, c') \<in> set (ms True (Cat (Opt cred_prefix_re) host_port_re) (s1, c1))"
    unfolding regex_def in_cat by blast
  from rest_starts[OF R] obtain A y where A: "s1 = A @ 58 # y" "A \<noteq> []" "list_all prefix_cu A"
    by blast
  have nsA: "\<not> is_space x" if "x \<in> set A" for x
    using A(3) that by (auto simp: list_all_iff prefix_cu_def)
  have inside: False if "L @ us = B" "\<And>x. x \<in> set B \<Longrightarrow> \<not> is_space x" for us B
  proof -
    from that(1) L(1) have "last L \<in> set B" by auto
    with that(2) L(3) show False by blast
  qed
  from a consider (none) "s1 = L @ z"
    | (some) tok sep where "L @ z = tok @ sep @ s1" "scheme_token tok" "separator sep"
    unfolding in_opt using in_scheme_sep[of s1 c1 "L @ z" c] by auto
  then show False
  proof cases
    case none
    with A(1) have "L @ z = A @ 58 # y" by simp
    from prefix_before_colon[OF this L(2)] obtain us where "L @ us = A" by blast
    then show False using nsA by (rule inside)
  next
    case some
    from scheme_token_host[OF some(2)] have tok: "tok \<noteq> []" "list_all host_cu tok" .
    have nsT: "\<not> is_space x" if "x \<in> set tok" for x
      using tok(2) that host_cu_not_space by (auto simp: list_all_iff)
    from some(3) show False
    proof (cases rule: separator_cases)
      case lit
      with some(1) have "L @ z = tok @ 58 # (47 # 47 # s1)" by simp
      from prefix_before_colon[OF this L(2)] obtain us where "L @ us = tok" by blast
      then show False using nsT by (rule inside)
    next
      case (ws b sep')
      then have sp: "list_all is_space sep" by simp
      from some(1) A(1) have "L @ z = (tok @ sep @ A) @ 58 # y" by simp
      from prefix_before_colon[OF this L(2)] obtain us where us: "L @ us = tok @ (sep @ A)" by auto
      then obtain vs where "(L = tok @ vs \<and> vs @ us = sep @ A) \<or> (L @ vs = tok \<and> us = vs @ sep @ A)"
        unfolding append_eq_append_conv2 by blast
      then show False
      proof
        assume "L @ vs = tok \<and> us = vs @ sep @ A"
        then have "L @ vs = tok" by simp
        then show False using nsT by (rule inside)
      next
        assume v: "L = tok @ vs \<and> vs @ us = sep @ A"
        have vne: "vs \<noteq> []"
        proof
          assume "vs = []"
          with v have "L @ [] = tok" by simp
          then show False using nsT by (rule inside)
        qed
        from v obtain ws where "(vs = sep @ ws \<and> ws @ us = A) \<or> (vs @ ws = sep \<and> us = ws @ A)"
          unfolding append_eq_append_conv2 by blast
        then show False
        proof
          assume "vs @ ws = sep \<and> us = ws @ A"
          with sp have "list_all is_space vs" by auto
          with v vne some(2) show False using ns[of tok vs] by simp
        next
          assume w: "vs = sep @ ws \<and> ws @ us = A"
          show False
          proof (cases "ws = []")
            case True
            with w sp have "list_all is_space vs" by simp
            with v vne some(2) show False using ns[of tok vs] by simp
          next
            case False
            with w v have "last L = last ws" "last ws \<in> set A" by auto
            with nsA L(3) show False by simp
          qed
        qed
      qed
    qed
  qed
qed

lemma scheme_ending_append: "scheme_token tok \<Longrightarrow> scheme_ending (x @ tok)"
proof (induction x)
  case Nil
  with scheme_token_host(1)[of tok] show ?case by (cases tok) auto
next
  case (Cons a x)
  then show ?case by simp
qed

lemma rstrip_token:
  assumes "tok \<noteq> []" "\<not> is_space (last tok)" "list_all is_space us"
  shows "rev (dropWhile is_space (rev (x @ tok @ us))) = x @ tok"
proof -
  from assms(1,2) obtain t ts where t: "rev tok = t # ts" "\<not> is_space t"
    by (cases "rev tok") (auto simp: last_rev[symmetric] hd_rev)
  have "dropWhile is_space (rev us @ (t # ts) @ rev x) = (t # ts) @ rev x"
    using assms(3) t(2) by (subst dropWhile_append2) (auto simp: list_all_iff)
  with t(1) show ?thesis by simp
qed

lemma words_before_dead:
  assumes "words_before l" "i < length l"
  shows "ms True regex (drop i l @ z, c) = []"
proof (rule no_start_words)
  from assms have l: "58 \<notin> set l" "is_space (last l)"
    "\<not> scheme_ending (rev (dropWhile is_space (rev l)))"
    by (auto simp: words_before_def)
  show "drop i l \<noteq> []" using assms(2) by simp
  show "58 \<notin> set (drop i l)" using l(1) set_drop_subset[of i l] by blast
  show "is_space (last (drop i l))" using l(2) assms(2) by simp
  fix tok us
  assume e: "drop i l = tok @ us" and tok: "scheme_token tok" and us: "us \<noteq> []" "list_all is_space us"
  from scheme_token_host[OF tok] have t: "tok \<noteq> []" "\<not> is_space (last tok)"
    using host_cu_not_space by (auto simp: list_all_iff)
  from e have "l = take i l @ tok @ us" by (metis append_take_drop_id)
  then have "rev (dropWhile is_space (rev l)) = take i l @ tok"
    using rstrip_token[OF t us(2), of "take i l"] by simp
  with scheme_ending_append[OF tok, of "take i l"] l(3) show False by simp
qed

subsection \<open>A token and \<^verbatim>\<open>://\<close> before a written proxy\<close>

text \<open>
  No match starts at a token that is no scheme token and is followed by \<^verbatim>\<open>://\<close> and a host,
  nor at one of the two slashes.
\<close>

lemma no_start_token:
  assumes x: "list_all prefix_cu x" "\<not> scheme_token x" and h: "list_all prefix_cu h"
  shows "ms True regex (x @ 58 # 47 # 47 # h @ 58 # z, c) = []"
proof (rule ccontr)
  let ?s = "x @ 58 # 47 # 47 # h @ 58 # z"
  assume "ms True regex (?s, c) \<noteq> []"
  from nonempty_member[OF this] obtain r c' where "(r, c') \<in> set (ms True regex (?s, c))" by blast
  then obtain s1 c1 where a: "(s1, c1) \<in> set (ms True (Opt (Cat scheme_re sep_re)) (?s, c))"
    and R: "(r, c') \<in> set (ms True (Cat (Opt cred_prefix_re) host_port_re) (s1, c1))"
    unfolding regex_def in_cat by blast
  from a have "s1 = ?s"
    unfolding in_opt using scheme_sep_unique[of s1 c1 x 58 "47 # 47 # h @ 58 # z" c, OF _ x(1) prefix_cu_58] x(2)
    by auto
  with R obtain s2 c2 where b: "(s2, c2) \<in> set (ms True (Opt cred_prefix_re) (?s, c1))"
    and hp: "(r, c') \<in> set (ms True host_port_re (s2, c2))"
    unfolding in_cat by blast
  from b consider (none) "s2 = ?s" | (some) u v where "?s = u @ 58 # v @ 64 # s2" "prefix_token u" "prefix_token v"
    unfolding in_opt using in_cred_prefix[of s2 c2 ?s c1] by auto
  then show False
  proof cases
    case none
    with in_host_port[OF hp] obtain h' p' y where hp': "host_text h'" "port_text p'" "?s = h' @ 58 # p' @ y"
      by auto
    from hp'(1) have "list_all prefix_cu h'"
      by (auto simp: host_text_def intro: list_all_mono host_cu_prefix_cu)
    from run_unique[OF hp'(3)[symmetric] this x(1) prefix_cu_58 prefix_cu_58]
    have "p' @ y = 47 # 47 # h @ 58 # z" by simp
    with hp'(2) show False by (cases p') (auto simp: port_text_def is_digit_def)
  next
    case some
    from some(2,3) have u: "list_all prefix_cu u" and v: "list_all prefix_cu v"
      by (simp_all add: prefix_token_def)
    from run_unique[OF some(1)[symmetric] u x(1) prefix_cu_58 prefix_cu_58]
    have "v @ 64 # s2 = (47 # 47 # h) @ 58 # z" by simp
    moreover have "list_all prefix_cu (47 # 47 # h)"
      using h by (simp add: prefix_cu_def is_space_def)
    ultimately show False
      using run_unique[of v 64 s2 "47 # 47 # h" 58 z prefix_cu] v prefix_cu_64 prefix_cu_58 by simp
  qed
qed

lemma no_start_slash:
  assumes q: "q = [47] \<or> q = [47, 47]" and h: "list_all prefix_cu h"
    and z: "case dropWhile prefix_cu z of [] \<Rightarrow> True | b # _ \<Rightarrow> b \<noteq> 64"
  shows "ms True regex (q @ h @ 58 # z, c) = []"
proof (rule ccontr)
  let ?s = "q @ h @ 58 # z"
  from q h have qh: "list_all prefix_cu (q @ h)" "hd ?s = 47" "47 \<in> set (q @ h)"
    by (auto simp: prefix_cu_def is_space_def)
  assume "ms True regex (?s, c) \<noteq> []"
  from nonempty_member[OF this] obtain r c' where "(r, c') \<in> set (ms True regex (?s, c))" by blast
  then obtain s1 c1 where a: "(s1, c1) \<in> set (ms True (Opt (Cat scheme_re sep_re)) (?s, c))"
    and R: "(r, c') \<in> set (ms True (Cat (Opt cred_prefix_re) host_port_re) (s1, c1))"
    unfolding regex_def in_cat by blast
  have "s1 = ?s"
  proof (rule ccontr)
    assume "s1 \<noteq> ?s"
    with a have "(s1, c1) \<in> set (ms True (Cat scheme_re sep_re) ((q @ h) @ 58 # z, c))"
      unfolding in_opt by auto
    from scheme_sep_unique[OF this qh(1) prefix_cu_58] have "scheme_token (q @ h)" by blast
    from scheme_token_host(2)[OF this] qh(3) have "host_cu 47" by (simp add: list_all_iff)
    then show False by (simp add: host_cu_def)
  qed
  with R obtain s2 c2 where b: "(s2, c2) \<in> set (ms True (Opt cred_prefix_re) (?s, c1))"
    and hp: "(r, c') \<in> set (ms True host_port_re (s2, c2))"
    unfolding in_cat by blast
  from b consider (none) "s2 = ?s" | (some) u v where "?s = u @ 58 # v @ 64 # s2" "prefix_token u" "prefix_token v"
    unfolding in_opt using in_cred_prefix[of s2 c2 ?s c1] by auto
  then show False
  proof cases
    case none
    with in_host_port[OF hp] obtain h' y where "host_text h'" "?s = h' @ y"
      by auto
    with qh(2) have "host_cu 47" by (cases h') (auto simp: host_text_def)
    then show False by (simp add: host_cu_def)
  next
    case some
    from some(2,3) have u: "list_all prefix_cu u" and v: "list_all prefix_cu v"
      by (simp_all add: prefix_token_def)
    from some(1) have "u @ 58 # v @ 64 # s2 = (q @ h) @ 58 # z" by simp
    from run_unique[OF this u qh(1) prefix_cu_58 prefix_cu_58]
    have "z = v @ 64 # s2" by simp
    with v have "dropWhile prefix_cu z = 64 # s2" by (simp add: dropWhile_run prefix_cu_64)
    with z show False by simp
  qed
qed

lemma token_lead_dead:
  assumes x: "list_all prefix_cu x" "\<not> scheme_ending x" and h: "list_all prefix_cu h"
    and z: "case dropWhile prefix_cu z of [] \<Rightarrow> True | b # _ \<Rightarrow> b \<noteq> 64"
    and i: "i < length (x @ [58, 47, 47])"
  shows "ms True regex (drop i (x @ [58, 47, 47]) @ h @ 58 # z, c) = []"
proof -
  consider "i \<le> length x" | "i = Suc (length x)" | "i = Suc (Suc (length x))"
    using i by fastforce
  then show ?thesis
  proof cases
    case 1
    have "list_all prefix_cu (drop i x)"
      using x(1) set_drop_subset[of i x] by (auto simp: list_all_iff)
    moreover have "\<not> scheme_token (drop i x)"
      using scheme_ending_append[of "drop i x" "take i x"] x(2) by auto
    ultimately have "ms True regex (drop i x @ 58 # 47 # 47 # h @ 58 # z, c) = []"
      using h by (rule no_start_token)
    with 1 show ?thesis by simp
  next
    case 2
    with no_start_slash[of "[47, 47]" h z c] h z show ?thesis by simp
  next
    case 3
    with no_start_slash[of "[47]" h z c] h z show ?thesis by simp
  qed
qed

subsection \<open>What the parser returns on a written proxy\<close>

lemma match_lead:
  assumes "tokens_ok (sch, pre, h, p, suf)" "trail_ok pre p suf r"
    and dead: "\<And>i. i < length l \<Longrightarrow>
      ms True regex (drop i l @ proxy_text (sch, pre, h, p, suf) @ r, Map.empty) = []"
  shows "\<exists>m. match True regex (l @ proxy_text (sch, pre, h, p, suf) @ r) = Some m \<and>
          m 0 = Some (proxy_text (sch, pre, h, p, suf)) \<and>
          m 1 = map_option fst sch \<and> m 2 = map_option fst pre \<and> m 3 = map_option snd pre \<and>
          m 4 = Some h \<and> m 5 = Some p \<and> m 6 = map_option fst suf \<and> m 7 = map_option snd suf"
proof -
  let ?w = "proxy_text (sch, pre, h, p, suf)"
  from regex_first[OF assms(1,2)] obtain rest c' where
    c': "ms True regex (?w @ r, Map.empty) = (r, c') # rest"
    "c' 1 = map_option fst sch" "c' 2 = map_option fst pre" "c' 3 = map_option snd pre"
    "c' 4 = Some h" "c' 5 = Some p" "c' 6 = map_option fst suf" "c' 7 = map_option snd suf"
    by blast
  have "match True regex (l @ ?w @ r) = match True regex (?w @ r)"
    by (rule match_skip) (rule dead)
  moreover from c'(1) have "match True regex (?w @ r) = Some (c'(0 \<mapsto> ?w))"
    by (intro match_at_match) (simp add: match_at_def)
  ultimately show ?thesis using c'(2-) by simp
qed

lemma trail_ok_Nil: "trail_ok pre p suf []"
  by (simp add: trail_ok_def)

lemma match_written:
  assumes "tokens_ok (sch, pre, h, p, suf)"
  shows "\<exists>m. match True regex (proxy_text (sch, pre, h, p, suf)) = Some m \<and>
          m 0 = Some (proxy_text (sch, pre, h, p, suf)) \<and>
          m 1 = map_option fst sch \<and> m 2 = map_option fst pre \<and> m 3 = map_option snd pre \<and>
          m 4 = Some h \<and> m 5 = Some p \<and> m 6 = map_option fst suf \<and> m 7 = map_option snd suf"
  using match_lead[OF assms trail_ok_Nil, of "[]"] by simp

lemma proxy_text_ends:
  assumes "tokens_ok (sch, pre, h, p, suf)"
  shows "\<not> is_space (hd (proxy_text (sch, pre, h, p, suf)))"
    and "\<not> is_space (last (proxy_text (sch, pre, h, p, suf)))"
proof -
  from assms have ok: "scheme_ok sch" "prefix_ok pre" "host_text h" "port_text p" "suffix_ok suf"
    by simp_all
  let ?z = "58 # p @ suffix_text suf"
  from rest_text_starts[OF ok(2,3), of ?z] obtain b r where
    b: "prefix_text pre @ h @ ?z = b # r" "prefix_cu b" by blast
  show "\<not> is_space (hd (proxy_text (sch, pre, h, p, suf)))"
  proof (cases sch)
    case None
    with b show ?thesis by (simp add: prefix_cu_def)
  next
    case (Some ts)
    obtain tok sep where "ts = (tok, sep)" by (cases ts)
    with Some ok(1) scheme_token_host[of tok] show ?thesis
      by (cases tok) (auto simp: host_cu_def is_space_def)
  qed
  show "\<not> is_space (last (proxy_text (sch, pre, h, p, suf)))"
  proof (cases suf)
    case None
    with ok(4) have "last (proxy_text (sch, pre, h, p, suf)) = last p" "is_digit (last p)"
      by (auto simp: port_text_def list_all_iff)
    then show ?thesis by (auto simp: is_digit_def is_space_def)
  next
    case (Some xy)
    obtain x y where "xy = (x, y)" by (cases xy)
    with Some ok(5) have "last (proxy_text (sch, pre, h, p, suf)) = last y" "suffix_cu (last y)"
      by (auto simp: suffix_token_def list_all_iff)
    then show ?thesis by (simp add: suffix_cu_def)
  qed
qed

text \<open>
  What the parser returns on a proxy written from its tokens, with text \<open>l\<close> before it in
  which no match starts and text \<open>r\<close> after it that the pattern cannot draw in.
\<close>

lemma parse_lead:
  assumes "tokens_ok (sch, pre, h, p, suf)" "trail_ok pre p suf r"
    and dead: "\<And>i. i < length l \<Longrightarrow>
      ms True regex (drop i l @ proxy_text (sch, pre, h, p, suf) @ r, Map.empty) = []"
    and ends: "l = [] \<or> \<not> is_space (hd l)" "r = [] \<or> \<not> is_space (last r)"
  shows "smartParseProxy (l @ proxy_text (sch, pre, h, p, suf) @ r) =
     (if 65535 < digits_val p \<or> only_dots h then None
      else Some \<lparr>type = Str (resolve_type (toLowerCase (case sch of None \<Rightarrow> [] | Some (tok, sep) \<Rightarrow> tok))),
        host = Str h, port = Str p,
        user = Str (case pre of Some (u, v) \<Rightarrow> u | None \<Rightarrow> (case suf of Some (x, y) \<Rightarrow> x | None \<Rightarrow> [])),
        pass = Str (case pre of Some (u, v) \<Rightarrow> v | None \<Rightarrow> (case suf of Some (x, y) \<Rightarrow> y | None \<Rightarrow> []))\<rparr>)"
proof -
  let ?w = "proxy_text (sch, pre, h, p, suf)"
  from assms have ok: "scheme_ok sch" "prefix_ok pre" "host_text h" "port_text p" "suffix_ok suf"
    by simp_all
  have w: "?w \<noteq> []" by simp
  have "\<not> is_space (hd (l @ ?w @ r))"
    using proxy_text_ends(1)[OF assms(1)] ends(1) w
    by (cases l) (simp_all del: proxy_text.simps)
  moreover have "\<not> is_space (last (l @ ?w @ r))"
    using proxy_text_ends(2)[OF assms(1)] ends(2) w
    by (cases "r = []") (simp_all del: proxy_text.simps)
  ultimately have tr: "trim (l @ ?w @ r) = l @ ?w @ r"
    using w by (simp add: trim_id del: proxy_text.simps)
  from match_lead[OF assms(1,2) dead] obtain m where m:
    "match True regex (l @ ?w @ r) = Some m"
    "m 1 = map_option fst sch" "m 2 = map_option fst pre" "m 3 = map_option snd pre"
    "m 4 = Some h" "m 5 = Some p" "m 6 = map_option fst suf" "m 7 = map_option snd suf"
    by blast
  have raw: "js_or (m (Suc 0)) [] = (case sch of None \<Rightarrow> [] | Some (tok, sep) \<Rightarrow> tok)"
    using ok(1) m(2) scheme_token_host(1) by (cases sch) (auto simp: js_or_def)
  have su: "js_or (m 6) [] = (case suf of Some (x, y) \<Rightarrow> x | None \<Rightarrow> [])"
    and sp: "js_or (m 7) [] = (case suf of Some (x, y) \<Rightarrow> y | None \<Rightarrow> [])"
    using ok(5) m(7,8) by (cases suf; auto simp: js_or_def suffix_token_def)+
  have u: "js_or (m 2) (js_or (m 6) []) =
      (case pre of Some (u, v) \<Rightarrow> u | None \<Rightarrow> (case suf of Some (x, y) \<Rightarrow> x | None \<Rightarrow> []))"
    and pw: "js_or (m 3) (js_or (m 7) []) =
      (case pre of Some (u, v) \<Rightarrow> v | None \<Rightarrow> (case suf of Some (x, y) \<Rightarrow> y | None \<Rightarrow> []))"
    unfolding su sp using ok(2) m(3,4) by (cases pre; auto simp: js_or_def prefix_token_def)+
  from ok(4) have nn: "0 \<le> digits_val p" by (simp add: port_text_def digits_val_nonneg)
  show ?thesis
    unfolding smartParseProxy_def tr Let_def m(1)
    using w nn
    by (simp add: raw u pw m(5,6) parseInt_port[OF ok(4)] entry_def del: proxy_text.simps)
qed

lemma parse_written:
  assumes "tokens_ok (sch, pre, h, p, suf)"
  shows "smartParseProxy (proxy_text (sch, pre, h, p, suf)) =
     (if 65535 < digits_val p \<or> only_dots h then None
      else Some \<lparr>type = Str (resolve_type (toLowerCase (case sch of None \<Rightarrow> [] | Some (tok, sep) \<Rightarrow> tok))),
        host = Str h, port = Str p,
        user = Str (case pre of Some (u, v) \<Rightarrow> u | None \<Rightarrow> (case suf of Some (x, y) \<Rightarrow> x | None \<Rightarrow> [])),
        pass = Str (case pre of Some (u, v) \<Rightarrow> v | None \<Rightarrow> (case suf of Some (x, y) \<Rightarrow> y | None \<Rightarrow> []))\<rparr>)"
  using parse_lead[OF assms trail_ok_Nil, of "[]"] by simp

lemma parse_around:
  assumes "tokens_ok (sch, pre, h, p, suf)" "words_before l" "trail_ok pre p suf r"
    "r = [] \<or> \<not> is_space (last r)"
  shows "smartParseProxy (l @ proxy_text (sch, pre, h, p, suf) @ r) =
     smartParseProxy (proxy_text (sch, pre, h, p, suf))"
proof -
  have "l = [] \<or> \<not> is_space (hd l)" using assms(2) by (auto simp: words_before_def)
  from parse_lead[OF assms(1,3) words_before_dead[OF assms(2)] this assms(4)]
  show ?thesis unfolding parse_written[OF assms(1)] .
qed

lemma parse_after_token:
  assumes x: "list_all prefix_cu x" "\<not> scheme_ending x" and ok: "tokens_ok (None, None, h, p, suf)"
  shows "smartParseProxy (x @ js ''://'' @ proxy_text (None, None, h, p, suf)) =
     smartParseProxy (proxy_text (None, None, h, p, suf))"
proof -
  let ?l = "x @ [58, 47, 47]"
  from ok have h: "list_all prefix_cu h" and p: "port_text p"
    by (auto simp: host_text_def intro: list_all_mono host_cu_prefix_cu)
  have dead: "ms True regex (drop i ?l @ proxy_text (None, None, h, p, suf) @ [], Map.empty) = []"
    if "i < length ?l" for i
    using token_lead_dead[OF x h no_at_after_port[OF p trail_ok_Nil] that, of suf Map.empty]
    by simp
  have "\<not> is_space (hd ?l)"
    using x(1) by (cases x) (simp_all add: prefix_cu_def is_space_def)
  then have "?l = [] \<or> \<not> is_space (hd ?l)" ..
  from parse_lead[OF ok trail_ok_Nil dead this] show ?thesis
    unfolding parse_written[OF ok] by (simp add: js_sep)
qed

subsection \<open>Where the pattern matches at all\<close>

lemma host_port_member:
  assumes "host_text h" "port_text p"
  shows "(z, c(4 \<mapsto> h, 5 \<mapsto> p)) \<in> set (ms True host_port_re (h @ 58 # p @ z, c))"
proof -
  from assms have h: "list_all host_cu h" "1 \<le> length h" and p: "list_all is_digit p" "1 \<le> length p" "length p \<le> 5"
    by (auto simp: host_text_def port_text_def Suc_le_eq)
  have g4: "(58 # p @ z, c(4 \<mapsto> h)) \<in> set (ms True (Group 4 (Quant 1 None host_tok)) (h @ 58 # p @ z, c))"
    unfolding in_ms_group_quant host_tok_ok using h by (intro exI[of _ h]) simp
  have col: "(p @ z, c(4 \<mapsto> h)) \<in> set (ms True (Lit (js '':'')) (58 # p @ z, c(4 \<mapsto> h)))"
    unfolding in_colon by simp
  have g5: "(z, c(4 \<mapsto> h, 5 \<mapsto> p)) \<in> set (ms True (Group 5 (Quant 1 (Some 5) Esc_d)) (p @ z, c(4 \<mapsto> h)))"
    unfolding in_ms_group_quant esc_d_ok using p by (intro exI[of _ p]) simp
  have opt: "(z, c(4 \<mapsto> h, 5 \<mapsto> p)) \<in> set (ms True (Opt cred_suffix_re) (z, c(4 \<mapsto> h, 5 \<mapsto> p)))"
    unfolding in_opt by simp
  show ?thesis
    unfolding host_port_re_def in_cat using g4 col g5 opt by blast
qed

lemma regex_member:
  assumes "proxy_shaped w"
  shows "ms True regex (w @ z, Map.empty) \<noteq> []"
proof -
  from assms obtain a b h p d where w: "w = a @ b @ h @ 58 # p @ d"
    "a = [] \<or> scheme_part a" "b = [] \<or> prefix_part b" "host_text h" "port_text p"
    unfolding proxy_shaped_def by blast
  let ?s2 = "h @ 58 # p @ d @ z"
  let ?s1 = "b @ ?s2"
  from w(2) obtain c1 where 1: "(?s1, c1) \<in> set (ms True (Opt (Cat scheme_re sep_re)) (a @ ?s1, Map.empty))"
  proof
    assume "a = []"
    then have "(?s1, Map.empty) \<in> set (ms True (Opt (Cat scheme_re sep_re)) (a @ ?s1, Map.empty))"
      unfolding in_opt by simp
    then show ?thesis by (rule that)
  next
    assume "scheme_part a"
    then obtain tok sep where "a = tok @ sep" "scheme_token tok" "separator sep"
      unfolding scheme_part_def by blast
    with scheme_sep_complete[of tok sep ?s1 Map.empty]
    have "(?s1, [1 \<mapsto> tok]) \<in> set (ms True (Opt (Cat scheme_re sep_re)) (a @ ?s1, Map.empty))"
      unfolding in_opt by simp
    then show ?thesis by (rule that)
  qed
  from w(3) obtain c2 where 2: "(?s2, c2) \<in> set (ms True (Opt cred_prefix_re) (?s1, c1))"
  proof
    assume "b = []"
    then have "(?s2, c1) \<in> set (ms True (Opt cred_prefix_re) (?s1, c1))"
      unfolding in_opt by simp
    then show ?thesis by (rule that)
  next
    assume "prefix_part b"
    then obtain u v where "b = u @ 58 # v @ [64]" "prefix_token u" "prefix_token v"
      unfolding prefix_part_def by blast
    with cred_prefix_exact[of u v ?s2 c1]
    have "(?s2, c1(2 \<mapsto> u, 3 \<mapsto> v)) \<in> set (ms True (Opt cred_prefix_re) (?s1, c1))"
      unfolding in_opt by simp
    then show ?thesis by (rule that)
  qed
  from host_port_member[OF w(4,5), of "d @ z" c2]
  have 3: "(d @ z, c2(4 \<mapsto> h, 5 \<mapsto> p)) \<in> set (ms True host_port_re (?s2, c2))" by simp
  from 1 2 3 have "(d @ z, c2(4 \<mapsto> h, 5 \<mapsto> p)) \<in> set (ms True regex (w @ z, Map.empty))"
    unfolding regex_def in_cat w(1) by auto
  then show ?thesis by auto
qed

text \<open>The pattern matches somewhere in a string exactly when a part of it is proxy-shaped.\<close>

lemma match_contains:
  "(\<exists>m. match True regex s = Some m) \<longleftrightarrow> (\<exists>pre w post. s = pre @ w @ post \<and> proxy_shaped w)"
proof
  assume "\<exists>m. match True regex s = Some m"
  then obtain m where "match True regex s = Some m" by blast
  from match_shape_found[OF this] show "\<exists>pre w post. s = pre @ w @ post \<and> proxy_shaped w"
    using match_shape_proxy_shaped by blast
next
  assume "\<exists>pre w post. s = pre @ w @ post \<and> proxy_shaped w"
  then obtain pre w post where s: "s = pre @ w @ post" "proxy_shaped w" by blast
  from match_found[OF regex_member[OF s(2), of post], of pre] s(1)
  show "\<exists>m. match True regex s = Some m" by simp
qed

subsection \<open>The steps of the call\<close>

lemma or_val_entry: "or_val (entry a) (Str b) = Str (js_or a b)"
  by (cases a) (simp_all add: or_val_def entry_def js_or_def)

lemma parseInt_val_entry: "parseInt_val (entry a) = (case a of None \<Rightarrow> None | Some p \<Rightarrow> parseInt p)"
  by (cases a) (simp_all add: entry_def)

lemma test_dots_entry: "test_dots (entry a) = (case a of None \<Rightarrow> False | Some h \<Rightarrow> only_dots h)"
  by (cases a) (simp_all add: entry_def)

lemma call_trim_or: "call_trim (or_val (Str t) (Str [])) = Inr (trim t)"
  by (cases "t = []") (simp_all add: or_val_def)

text \<open>On a string no step of the call throws: it returns what \<open>smartParseProxy\<close> gives.\<close>

lemma call_returns: "smartParseProxy_call (Str t) = Inr (smartParseProxy t)"
proof (cases "match True regex (trim t)")
  case None
  then show ?thesis
    by (simp add: smartParseProxy_call_def smartParseProxy_def call_trim_or then_do_def Let_def)
next
  case (Some m)
  then show ?thesis
    by (simp add: smartParseProxy_call_def smartParseProxy_def call_trim_or then_do_def Let_def
        or_val_entry parseInt_val_entry test_dots_entry)
qed

lemma call_number_throws: "smartParseProxy_call (Num 5) = Inl TypeError"
  by (simp add: smartParseProxy_call_def or_val_def then_do_def)

lemma call_undefined: "smartParseProxy_call Undefined = Inr None"
  by (simp add: smartParseProxy_call_def or_val_def then_do_def trim_def)

subsection \<open>Scheme tokens in any letter case\<close>

lemma in_any_case_lower:
  assumes "list_all2 (\<lambda>a c. c = a \<or> (97 \<le> a \<and> a \<le> 122 \<and> c + 32 = a)) w tok"
    "list_all (\<lambda>a. (97 \<le> a \<and> a \<le> 122) \<or> (48 \<le> a \<and> a \<le> 57)) w"
  shows "toLowerCase tok = w"
  using assms
proof (induction rule: list_all2_induct)
  case Nil
  then show ?case by (simp add: toLowerCase_def)
next
  case (Cons a w c tok)
  then have "(if 65 \<le> c \<and> c \<le> 90 then c + 32 else c) = a" by auto
  with Cons show ?case by (simp add: toLowerCase_def)
qed

lemma scheme_table_token:
  assumes "(w, ty) \<in> set scheme_table" "in_any_case w tok"
  shows "scheme_token tok" "resolve_type (toLowerCase tok) = ty"
proof -
  from assms(1) have "list_all (\<lambda>a. (97 \<le> a \<and> a \<le> 122) \<or> (48 \<le> a \<and> a \<le> 57)) w"
    by (auto simp: scheme_table_def js_def)
  with assms(2) have l: "toLowerCase tok = w"
    unfolding in_any_case_def by (rule in_any_case_lower)
  from assms(1) show "scheme_token tok"
    unfolding l scheme_token_def scheme_table_def by auto
  from assms(1) show "resolve_type (toLowerCase tok) = ty"
    unfolding l scheme_table_def by (auto simp: resolve_type_def js_def)
qed

lemma toLowerCase_any_case: "in_any_case (toLowerCase tok) tok"
  unfolding in_any_case_def toLowerCase_def list_all2_map1
  by (rule list_all2_refl) auto

lemma scheme_token_table:
  assumes "scheme_token tok"
  shows "\<exists>w ty. (w, ty) \<in> set scheme_table \<and> in_any_case w tok \<and> resolve_type (toLowerCase tok) = ty"
proof -
  from assms have "(toLowerCase tok, resolve_type (toLowerCase tok)) \<in> set scheme_table"
    unfolding scheme_token_def scheme_table_def
    by (elim disjE) (simp_all add: resolve_type_def js_def)
  with toLowerCase_any_case[of tok] show ?thesis by blast
qed

lemma match_shape_scheme:
  assumes "match_shape w m"
  shows "m 1 = None \<or> (\<exists>tok sep z. w = tok @ sep @ z \<and> scheme_token tok \<and> separator sep \<and> m 1 = Some tok)"
proof -
  from assms obtain a b h p d where w: "w = a @ b @ h @ 58 # p @ d"
    "(a = [] \<and> m 1 = None) \<or>
     (\<exists>tok sep. a = tok @ sep \<and> scheme_token tok \<and> separator sep \<and> m 1 = Some tok)"
    unfolding match_shape_def by blast
  from w(2) show ?thesis
  proof
    assume "a = [] \<and> m 1 = None"
    then show ?thesis by simp
  next
    assume "\<exists>tok sep. a = tok @ sep \<and> scheme_token tok \<and> separator sep \<and> m 1 = Some tok"
    then obtain tok sep where "a = tok @ sep" "scheme_token tok" "separator sep" "m 1 = Some tok"
      by blast
    with w(1) have "w = tok @ sep @ (b @ h @ 58 # p @ d)" by simp
    with \<open>scheme_token tok\<close> \<open>separator sep\<close> \<open>m 1 = Some tok\<close> show ?thesis by blast
  qed
qed

text \<open>
  A scheme other than the default comes from one of the five tokens only: when the parser
  returns a descriptor, its type is \<^verbatim>\<open>http\<close>, or the matched text starts with a scheme token
  and a separator, and the type is what the table gives for that token.
\<close>

lemma type_from_table:
  assumes "smartParseProxy t = Some d"
  shows "type d = Str (js ''http'') \<or>
     (\<exists>pre tok sep post w ty. trim t = pre @ tok @ sep @ post \<and> (w, ty) \<in> set scheme_table \<and>
        in_any_case w tok \<and> separator sep \<and> type d = Str ty)"
proof -
  from assms obtain m :: caps and pre w post where t: "trim t = pre @ w @ post" and s: "match_shape w m"
    and d: "type d = Str (resolve_type (toLowerCase (js_or (m 1) [])))"
    by (elim parse_some) simp
  from match_shape_scheme[OF s] show ?thesis
  proof
    assume "m 1 = None"
    with d show ?thesis by (simp add: js_or_def resolve_none)
  next
    assume "\<exists>tok sep z. w = tok @ sep @ z \<and> scheme_token tok \<and> separator sep \<and> m 1 = Some tok"
    then obtain tok sep z where z: "w = tok @ sep @ z" "scheme_token tok" "separator sep" "m 1 = Some tok"
      by blast
    from scheme_token_table[OF z(2)] obtain w' ty where
      tab: "(w', ty) \<in> set scheme_table" "in_any_case w' tok" "resolve_type (toLowerCase tok) = ty"
      by blast
    from z(2,4) d tab(3) have "type d = Str ty"
      using scheme_token_host(1)[of tok] by (simp add: js_or_def)
    moreover from t z(1) have "trim t = pre @ tok @ sep @ (z @ post)" by simp
    ultimately show ?thesis using tab(1,2) z(3) by blast
  qed
qed

subsection \<open>Worked inputs\<close>

lemma plain_tokens:
  "host_text (js ''1.2.3.4'')" "\<not> only_dots (js ''1.2.3.4'')" "port_text (js ''8080'')"
  "digits_val (js ''8080'') = 8080"
  by (simp_all add: js_def host_text_def host_cu_def only_dots_def port_text_def is_digit_def
      digits_val_def)

lemma plain_parse:
  "smartParseProxy (js ''1.2.3.4:8080'') =
     Some \<lparr>type = Str (js ''http''), host = Str (js ''1.2.3.4''), port = Str (js ''8080''),
       user = Str [], pass = Str []\<rparr>"
proof -
  have "tokens_ok (None, None, js ''1.2.3.4'', js ''8080'', None)"
    using plain_tokens by simp
  from parse_written[OF this] plain_tokens(2,4) have
    "smartParseProxy (js ''1.2.3.4'' @ 58 # js ''8080'') =
     Some \<lparr>type = Str (js ''http''), host = Str (js ''1.2.3.4''), port = Str (js ''8080''),
       user = Str [], pass = Str []\<rparr>"
    by (simp add: resolve_none)
  moreover have "js ''1.2.3.4'' @ 58 # js ''8080'' = js ''1.2.3.4:8080''"
    by (simp add: js_def)
  ultimately show ?thesis by simp
qed

lemma trailing_path_parse:
  "smartParseProxy (js ''1.2.3.4:8080/path'') =
     Some \<lparr>type = Str (js ''http''), host = Str (js ''1.2.3.4''), port = Str (js ''8080''),
       user = Str [], pass = Str []\<rparr>"
proof -
  let ?w = "proxy_text (None, None, js ''1.2.3.4'', js ''8080'', None)"
  have ok: "tokens_ok (None, None, js ''1.2.3.4'', js ''8080'', None)"
    using plain_tokens by simp
  have tr: "trail_ok None (js ''8080'') None (js ''/path'')" "\<not> is_space (last (js ''/path''))"
    by (simp_all add: trail_ok_def js_def is_space_def is_digit_def)
  from parse_around[OF ok _ tr(1), of "[]"] tr(2)
  have "smartParseProxy (?w @ js ''/path'') = smartParseProxy ?w"
    by (simp add: words_before_def del: proxy_text.simps)
  moreover have "?w @ js ''/path'' = js ''1.2.3.4:8080/path''" "?w = js ''1.2.3.4:8080''"
    by (simp_all add: js_def)
  ultimately show ?thesis using plain_parse by simp
qed

lemma both_forms_parse:
  "smartParseProxy (js ''alice:pw@10.0.0.1:8080:bob:secret'') =
     Some \<lparr>type = Str (js ''http''), host = Str (js ''10.0.0.1''), port = Str (js ''8080''),
       user = Str (js ''alice''), pass = Str (js ''pw'')\<rparr>"
proof -
  let ?tk = "(None, Some (js ''alice'', js ''pw''), js ''10.0.0.1'', js ''8080'',
      Some (js ''bob'', js ''secret''))"
  have ok: "tokens_ok ?tk"
    by (simp add: js_def host_text_def host_cu_def port_text_def is_digit_def
        prefix_token_def prefix_cu_def suffix_token_def suffix_cu_def is_space_def)
  have chk: "\<not> only_dots (js ''10.0.0.1'')" "digits_val (js ''8080'') \<le> 65535"
    by (simp_all add: js_def only_dots_def digits_val_def)
  have wr: "proxy_text ?tk = js ''alice:pw@10.0.0.1:8080:bob:secret''"
    by (simp add: js_def)
  from parse_written[OF ok] chk show ?thesis
    unfolding wr by (simp add: resolve_none)
qed

subsection \<open>The groups of a match\<close>

lemma groups_shape:
  assumes "match_shape w m"
  shows "(m 1 = None \<or> (\<exists>tok. m 1 = Some tok \<and> scheme_token tok))"
    and "(m 2 = None \<and> m 3 = None) \<or>
         (\<exists>u v. m 2 = Some u \<and> m 3 = Some v \<and> prefix_token u \<and> prefix_token v)"
    and "(m 6 = None \<and> m 7 = None) \<or>
         (\<exists>x y. m 6 = Some x \<and> m 7 = Some y \<and> suffix_token x \<and> suffix_token y)"
  using assms unfolding match_shape_def by blast+

subsection \<open>The tokens, character by character\<close>

lemma prefix_token_iff:
  "prefix_token u \<longleftrightarrow> u \<noteq> [] \<and> 58 \<notin> set u \<and> 64 \<notin> set u \<and> \<not> list_ex is_space u"
  unfolding prefix_token_def prefix_cu_def list_all_iff list_ex_iff by auto

lemma suffix_token_iff:
  "suffix_token x \<longleftrightarrow> x \<noteq> [] \<and> 58 \<notin> set x \<and> \<not> list_ex is_space x"
  unfolding suffix_token_def suffix_cu_def list_all_iff list_ex_iff by auto

lemma scheme_token_lower:
  "scheme_token (js ''http'')" "scheme_token (js ''https'')" "scheme_token (js ''socks4'')"
  "scheme_token (js ''socks5'')" "scheme_token (js ''socks5h'')"
  by (simp_all add: scheme_token_def toLowerCase_def js_def)

lemma separator_examples: "separator (js ''://'')" "separator (js '' '')"
  by (simp_all add: separator_def js_def is_space_def)

subsection \<open>Text after the port, and a token that is no scheme\<close>

lemma words_after_trail:
  assumes "words_after r"
  shows "trail_ok pre p suf r" "r = [] \<or> \<not> is_space (last r)"
  using assms by (cases r; simp add: words_after_def trail_ok_def)+

lemma bare_trailing:
  assumes "host_text h" "port_text p" "r \<noteq> []" "hd r \<noteq> 58" "\<not> is_digit (hd r) \<or> length p = 5"
    "64 \<notin> set r" "\<not> is_space (last r)"
  shows "smartParseProxy (h @ 58 # p @ r) = smartParseProxy (h @ 58 # p)"
proof -
  from assms(1,2) have ok: "tokens_ok (None, None, h, p, None)" by simp
  from assms(3-6) have tr: "trail_ok None p None r"
    by (cases r) (simp_all add: trail_ok_def)
  from parse_around[OF ok _ tr, of "[]"] assms(7) show ?thesis
    by (simp add: words_before_def)
qed

lemma digits_then_letters_parse:
  "smartParseProxy (js ''1.2.3.4:80abc'') =
     Some \<lparr>type = Str (js ''http''), host = Str (js ''1.2.3.4''), port = Str (js ''80''),
       user = Str [], pass = Str []\<rparr>"
proof -
  have t: "host_text (js ''1.2.3.4'')" "port_text (js ''80'')" "\<not> only_dots (js ''1.2.3.4'')"
    "digits_val (js ''80'') \<le> 65535"
    by (simp_all add: js_def host_text_def host_cu_def port_text_def is_digit_def only_dots_def
        digits_val_def)
  have r: "js ''abc'' \<noteq> []" "hd (js ''abc'') \<noteq> 58" "\<not> is_digit (hd (js ''abc'')) \<or> length (js ''80'') = 5"
    "64 \<notin> set (js ''abc'')" "\<not> is_space (last (js ''abc''))"
    by (simp_all add: js_def is_digit_def is_space_def)
  from t have ok: "tokens_ok (None, None, js ''1.2.3.4'', js ''80'', None)" by simp
  have "smartParseProxy (js ''1.2.3.4'' @ 58 # js ''80'' @ js ''abc'') =
      smartParseProxy (js ''1.2.3.4'' @ 58 # js ''80'')"
    using t(1,2) r by (rule bare_trailing)
  also have "\<dots> = Some \<lparr>type = Str (js ''http''), host = Str (js ''1.2.3.4''), port = Str (js ''80''),
       user = Str [], pass = Str []\<rparr>"
    using parse_written[OF ok] t(3,4) by (simp add: resolve_none)
  finally show ?thesis by (simp add: js_def)
qed

lemma unknown_token_parse:
  assumes "prefix_token x" "\<not> scheme_ending x" "host_text h" "port_text p" "suffix_ok suf"
    "\<not> only_dots h" "digits_val p \<le> 65535"
  shows "smartParseProxy (x @ js ''://'' @ h @ 58 # p @ suffix_text suf) =
     Some \<lparr>type = Str (js ''http''), host = Str h, port = Str p,
       user = Str (case suf of Some (u, v) \<Rightarrow> u | None \<Rightarrow> []),
       pass = Str (case suf of Some (u, v) \<Rightarrow> v | None \<Rightarrow> [])\<rparr>"
proof -
  from assms(3-5) have ok: "tokens_ok (None, None, h, p, suf)" by simp
  from assms(1) have x: "list_all prefix_cu x" by (simp add: prefix_token_def)
  from parse_after_token[OF x assms(2) ok] parse_written[OF ok] assms(6,7)
  show ?thesis by (simp add: resolve_none)
qed

lemma socks4a_parse:
  "smartParseProxy (js ''socks4a://1.2.3.4:1080'') =
     Some \<lparr>type = Str (js ''http''), host = Str (js ''1.2.3.4''), port = Str (js ''1080''),
       user = Str [], pass = Str []\<rparr>"
proof -
  have "prefix_token (js ''socks4a'')" "\<not> scheme_ending (js ''socks4a'')"
    "host_text (js ''1.2.3.4'')" "port_text (js ''1080'')" "suffix_ok None"
    "\<not> only_dots (js ''1.2.3.4'')" "digits_val (js ''1080'') \<le> 65535"
    by (simp_all add: js_def prefix_token_def prefix_cu_def is_space_def scheme_token_def
        toLowerCase_def host_text_def host_cu_def port_text_def is_digit_def only_dots_def
        digits_val_def)
  from unknown_token_parse[OF this] show ?thesis by (simp add: js_def)
qed

subsection \<open>Decimal numerals\<close>

declare decimal.simps [simp del]

lemma decimal_small: "n < 10 \<Longrightarrow> decimal n = [48 + n]"
  by (subst decimal.simps) simp

lemma decimal_large: "\<not> n < 10 \<Longrightarrow> decimal n = decimal (n div 10) @ [48 + n mod 10]"
  by (subst decimal.simps) simp

lemma decimal_digits: "decimal n \<noteq> [] \<and> list_all is_digit (decimal n)"
proof (induction n rule: decimal.induct)
  case (1 n)
  show ?case
  proof (cases "n < 10")
    case True
    then show ?thesis by (simp add: decimal_small is_digit_def)
  next
    case False
    have "n mod 10 < 10" by simp
    then have "is_digit (48 + n mod 10)" unfolding is_digit_def by linarith
    with False 1 show ?thesis by (simp add: decimal_large)
  qed
qed

lemma digits_val_snoc: "digits_val (ds @ [c]) = 10 * digits_val ds + (int c - 48)"
  by (simp add: digits_val_def)

lemma decimal_val: "digits_val (decimal n) = int n"
proof (induction n rule: decimal.induct)
  case (1 n)
  show ?case
  proof (cases "n < 10")
    case True
    then show ?thesis by (simp add: decimal_small digits_val_def)
  next
    case False
    with 1 have "digits_val (decimal (n div 10)) = int (n div 10)" by simp
    with False show ?thesis
      by (simp add: decimal_large digits_val_snoc zdiv_int zmod_int)
  qed
qed

lemma decimal_length: "n < 10 ^ k \<Longrightarrow> 0 < k \<Longrightarrow> length (decimal n) \<le> k"
proof (induction k arbitrary: n)
  case 0
  then show ?case by simp
next
  case (Suc k)
  show ?case
  proof (cases "n < 10")
    case True
    then show ?thesis by (simp add: decimal_small)
  next
    case False
    with Suc.prems have k: "0 < k" by (cases k) auto
    from Suc.prems have "n div 10 < 10 ^ k" by (simp add: less_mult_imp_div_less mult.commute)
    from Suc.IH[OF this k] False show ?thesis by (simp add: decimal_large)
  qed
qed

lemma decimal_port:
  assumes "n \<le> 65535"
  shows "port_text (decimal n)" "digits_val (decimal n) \<le> 65535"
proof -
  from assms have "n < 10 ^ 5" by simp
  from decimal_length[OF this] decimal_digits[of n] show "port_text (decimal n)"
    by (simp add: port_text_def)
  from assms show "digits_val (decimal n) \<le> 65535" by (simp add: decimal_val)
qed

section \<open>The claims\<close>

text \<open>
  C1, as amended. The pattern is searched for in the trimmed input and is not anchored to
  its ends. The parser returns a descriptor only when some contiguous part of the trimmed
  input conforms to the unified grammar (an optional scheme token with its separator,
  optional \<^verbatim>\<open>user:pass@\<close>, \<^verbatim>\<open>host:port\<close>, optional \<^verbatim>\<open>:user:pass\<close>). Text before or after
  such a part does not prevent the match: the pattern matches somewhere in a string exactly
  when some part of the string conforms. In particular a proxy written in any of the
  notations, with words before it (no colon in them, not ending in a scheme token, set off
  by white space) and words after it (set off by white space), parses exactly as the proxy
  alone. Input with no conforming part gives \<^verbatim>\<open>null\<close>: in particular every input without a
  colon, such as \<^verbatim>\<open>hello world\<close>.
\<close>

theorem match_is_searched:
  "(smartParseProxy t = Some d \<longrightarrow> (\<exists>pre w post. trim t = pre @ w @ post \<and> proxy_shaped w)) \<and>
   ((\<exists>m. match True regex s = Some m) \<longleftrightarrow> (\<exists>pre w post. s = pre @ w @ post \<and> proxy_shaped w)) \<and>
   (tokens_ok (sch, cred, h, p, suf) \<longrightarrow> words_before l \<longrightarrow> words_after r \<longrightarrow>
      smartParseProxy (l @ proxy_text (sch, cred, h, p, suf) @ r) =
        smartParseProxy (proxy_text (sch, cred, h, p, suf))) \<and>
   (58 \<notin> set t \<longrightarrow> smartParseProxy t = None) \<and>
   smartParseProxy (js ''hello world'') = None"
proof -
  have part: "\<exists>pre w post. trim t = pre @ w @ post \<and> proxy_shaped w \<and> 58 \<in> set w"
    if "smartParseProxy t = Some d" for t d
  proof -
    from that obtain m :: caps and pre w post where "trim t = pre @ w @ post" "match_shape w m"
      by (blast elim: parse_some)
    then show ?thesis
      using match_shape_proxy_shaped match_shape_colon by blast
  qed
  have colon: "smartParseProxy t = None" if no: "58 \<notin> set t" for t
  proof (cases "smartParseProxy t")
    case None
    then show ?thesis .
  next
    case (Some d)
    from part[OF this] have "58 \<in> set (trim t)" by auto
    with trim_subset[of t] no show ?thesis by blast
  qed
  show ?thesis
  proof (intro conjI impI)
    assume "smartParseProxy t = Some d"
    from part[OF this] show "\<exists>pre w post. trim t = pre @ w @ post \<and> proxy_shaped w" by blast
  next
    show "(\<exists>m. match True regex s = Some m) \<longleftrightarrow> (\<exists>pre w post. s = pre @ w @ post \<and> proxy_shaped w)"
      by (rule match_contains)
  next
    assume ok: "tokens_ok (sch, cred, h, p, suf)" and l: "words_before l" and r: "words_after r"
    show "smartParseProxy (l @ proxy_text (sch, cred, h, p, suf) @ r) =
        smartParseProxy (proxy_text (sch, cred, h, p, suf))"
      using ok l words_after_trail[OF r] by (rule parse_around)
  next
    assume "58 \<notin> set t"
    then show "smartParseProxy t = None" by (rule colon)
  next
    have "58 \<notin> set (js ''hello world'')" by (simp add: js_def)
    then show "smartParseProxy (js ''hello world'') = None" by (rule colon)
  qed
qed

theorem match_is_searched_witness:
  "(\<exists>pre w post. trim (js ''1.2.3.4:8080/path'') = pre @ w @ post \<and> proxy_shaped w) \<and>
   (\<exists>m. match True regex (js ''use 1.2.3.4:8080 today'') = Some m) \<and>
   smartParseProxy (js ''use 1.2.3.4:8080 today'') =
     Some \<lparr>type = Str (js ''http''), host = Str (js ''1.2.3.4''), port = Str (js ''8080''),
       user = Str [], pass = Str []\<rparr> \<and>
   smartParseProxy (js ''no proxy here'') = None"
proof -
  let ?d = "\<lparr>type = Str (js ''http''), host = Str (js ''1.2.3.4''), port = Str (js ''8080''),
      user = Str [], pass = Str []\<rparr>"
  let ?tk = "(None, None, js ''1.2.3.4'', js ''8080'', None)"
  let ?s = "js ''use 1.2.3.4:8080 today''"
  have ok: "tokens_ok ?tk" using plain_tokens by simp
  have wb: "words_before (js ''use '')"
    by (simp add: words_before_def js_def is_space_def scheme_token_def toLowerCase_def)
  have wa: "words_after (js '' today'')"
    by (simp add: words_after_def js_def is_space_def)
  have wr: "js ''use '' @ proxy_text ?tk @ js '' today'' = ?s"
    by (simp add: js_def)
  have wr2: "proxy_text ?tk = js ''1.2.3.4:8080''"
    by (simp add: js_def)
  have "proxy_shaped (js ''1.2.3.4'' @ 58 # js ''8080'' @ [])"
    unfolding proxy_shaped_def
    apply (rule exI[of _ "[]"], rule exI[of _ "[]"], rule exI[of _ "js ''1.2.3.4''"])
    apply (rule exI[of _ "js ''8080''"], rule exI[of _ "[]"])
    using plain_tokens by simp
  then have sh: "\<exists>pre w post. ?s = pre @ w @ post \<and> proxy_shaped w"
    by (intro exI[of _ "js ''use ''"] exI[of _ "js ''1.2.3.4'' @ 58 # js ''8080'' @ []"]
        exI[of _ "js '' today''"]) (simp add: js_def)
  have no: "58 \<notin> set (js ''no proxy here'')" by (simp add: js_def)
  note path = match_is_searched[where t = "js ''1.2.3.4:8080/path''" and d = ?d]
  note inst = match_is_searched[where t = "js ''no proxy here''" and s = ?s
      and sch = None and cred = None and h = "js ''1.2.3.4''" and p = "js ''8080''" and suf = None
      and l = "js ''use ''" and r = "js '' today''"]
  have 1: "\<exists>pre w post. trim (js ''1.2.3.4:8080/path'') = pre @ w @ post \<and> proxy_shaped w"
    using path[THEN conjunct1, rule_format, OF trailing_path_parse] .
  have 2: "\<exists>m. match True regex ?s = Some m"
    using inst[THEN conjunct2, THEN conjunct1] sh by (rule iffD2)
  have "smartParseProxy (js ''use '' @ proxy_text ?tk @ js '' today'') = smartParseProxy (proxy_text ?tk)"
    using inst[THEN conjunct2, THEN conjunct2, THEN conjunct1, rule_format, OF ok wb wa] .
  then have 3: "smartParseProxy ?s = Some ?d"
    unfolding wr unfolding wr2 plain_parse .
  have 4: "smartParseProxy (js ''no proxy here'') = None"
    using inst[THEN conjunct2, THEN conjunct2, THEN conjunct2, THEN conjunct1, rule_format, OF no] .
  from 1 2 3 4 show ?thesis by (intro conjI)
qed

text \<open>
  The claim C1 as it was stated fails: \<^verbatim>\<open>1.2.3.4:8080/path\<close>, a proxy followed by a path, is
  none of the seven notations (it does not end in a digit and has fewer than three colons),
  and the parser returns a descriptor for it.
\<close>

theorem trailing_path_is_parsed:
  "smartParseProxy (js ''1.2.3.4:8080/path'') =
     Some \<lparr>type = Str (js ''http''), host = Str (js ''1.2.3.4''), port = Str (js ''8080''),
       user = Str [], pass = Str []\<rparr> \<and>
   \<not> seven_notations (trim (js ''1.2.3.4:8080/path''))"
proof -
  have t: "trim (js ''1.2.3.4:8080/path'') = js ''1.2.3.4:8080/path''"
    by (rule trim_id) (simp_all add: js_def is_space_def)
  have "\<not> (is_digit (last (js ''1.2.3.4:8080/path'')) \<or> 3 \<le> count_list (js ''1.2.3.4:8080/path'') 58)"
    by (simp add: js_def is_digit_def)
  then have "\<not> seven_notations (js ''1.2.3.4:8080/path'')"
    using proxy_shaped_end seven_notations_proxy_shaped by blast
  with t trailing_path_parse show ?thesis by simp
qed

text \<open>
  C2. The parser is all-or-nothing: every result other than \<^verbatim>\<open>null\<close> is a descriptor with
  all five fields holding strings, the type one of the three schemes, the host non-empty,
  over the host alphabet and not made of dots only, and the port a text of one to five
  digits whose value is at most 65535. A proxy whose host is made of dots only, in whatever
  notation it is written, gives \<^verbatim>\<open>null\<close>; so does \<^verbatim>\<open>...:8080\<close>.
\<close>

theorem all_or_nothing:
  "(smartParseProxy t = Some d \<longrightarrow>
      (\<exists>ty h p u v. d = \<lparr>type = Str ty, host = Str h, port = Str p, user = Str u, pass = Str v\<rparr> \<and>
         (ty = js ''http'' \<or> ty = js ''socks4'' \<or> ty = js ''socks5'') \<and>
         host_text h \<and> \<not> only_dots h \<and> port_text p \<and>
         (\<exists>n. parseInt p = Some n \<and> 0 \<le> n \<and> n \<le> 65535))) \<and>
   (tokens_ok (sch, pre, h', p', suf) \<longrightarrow> only_dots h' \<longrightarrow>
      smartParseProxy (proxy_text (sch, pre, h', p', suf)) = None) \<and>
   smartParseProxy (js ''...:8080'') = None"
proof (intro conjI impI)
  assume "smartParseProxy t = Some d"
  then obtain m :: caps and h p n where r: "host_text h" "port_text p" "\<not> only_dots h"
    "parseInt p = Some n" "0 \<le> n" "n \<le> 65535"
    "d = \<lparr>type = Str (resolve_type (toLowerCase (js_or (m 1) []))), host = Str h, port = Str p,
          user = Str (js_or (m 2) (js_or (m 6) [])), pass = Str (js_or (m 3) (js_or (m 7) []))\<rparr>"
    by (blast elim: parse_some)
  with resolve_type_range[of "toLowerCase (js_or (m 1) [])"]
  show "\<exists>ty h p u v. d = \<lparr>type = Str ty, host = Str h, port = Str p, user = Str u, pass = Str v\<rparr> \<and>
         (ty = js ''http'' \<or> ty = js ''socks4'' \<or> ty = js ''socks5'') \<and>
         host_text h \<and> \<not> only_dots h \<and> port_text p \<and>
         (\<exists>n. parseInt p = Some n \<and> 0 \<le> n \<and> n \<le> 65535)"
    by blast
next
  assume "tokens_ok (sch, pre, h', p', suf)" "only_dots h'"
  then show "smartParseProxy (proxy_text (sch, pre, h', p', suf)) = None"
    using parse_written[of sch pre h' p' suf] by simp
next
  have "tokens_ok (None, None, js ''...'', js ''8080'', None)" "only_dots (js ''...'')"
    using plain_tokens(3) by (simp_all add: js_def host_text_def host_cu_def only_dots_def)
  moreover have "proxy_text (None, None, js ''...'', js ''8080'', None) = js ''...:8080''"
    by (simp add: js_def)
  ultimately show "smartParseProxy (js ''...:8080'') = None"
    using parse_written[of None None "js ''...''" "js ''8080''" None] by simp
qed

theorem all_or_nothing_witness:
  "(\<exists>ty h p u v. \<lparr>type = Str (js ''http''), host = Str (js ''1.2.3.4''), port = Str (js ''8080''),
        user = Str [], pass = Str []\<rparr> =
        \<lparr>type = Str ty, host = Str h, port = Str p, user = Str u, pass = Str v\<rparr> \<and>
      (ty = js ''http'' \<or> ty = js ''socks4'' \<or> ty = js ''socks5'') \<and>
      host_text h \<and> \<not> only_dots h \<and> port_text p \<and>
      (\<exists>n. parseInt p = Some n \<and> 0 \<le> n \<and> n \<le> 65535)) \<and>
   smartParseProxy (js ''socks5://.:1080'') = None"
proof -
  let ?tk = "(Some (js ''socks5'', js ''://''), None, js ''.'', js ''1080'', None)"
  have ok: "tokens_ok ?tk" and dots: "only_dots (js ''.'')"
    using scheme_token_lower(4) separator_examples(1)
    by (simp_all add: js_def host_text_def host_cu_def only_dots_def port_text_def is_digit_def)
  have "proxy_text ?tk = js ''socks5://.:1080''"
    by (simp add: js_def)
  with all_or_nothing[of "js ''1.2.3.4:8080''"
      "\<lparr>type = Str (js ''http''), host = Str (js ''1.2.3.4''), port = Str (js ''8080''),
        user = Str [], pass = Str []\<rparr>" "Some (js ''socks5'', js ''://'')" None "js ''.''" "js ''1080''" None]
    plain_parse ok dots
  show ?thesis by simp
qed

text \<open>
  C3, as amended. For every proxy written in one of the notations whose port, one to five
  digits, has a value above 65535 the parser gives \<^verbatim>\<open>null\<close> (for example
  \<^verbatim>\<open>192.168.1.1:99999\<close>), and so it does for every input in which no colon is directly
  followed by a digit. A port part that only starts with digits is not rejected: the
  pattern reads the first one to five digits as the port and leaves what follows out of the
  match. So \<^verbatim>\<open>host:port\<close> followed by text that starts with neither a colon nor, after fewer
  than five digits, a digit, and that holds no at sign, parses exactly as \<^verbatim>\<open>host:port\<close>
  alone.
\<close>

theorem port_out_of_range:
  "(tokens_ok (sch, pre, h, p, suf) \<longrightarrow> 65535 < digits_val p \<longrightarrow>
      smartParseProxy (proxy_text (sch, pre, h, p, suf)) = None) \<and>
   (\<not> colon_digit (trim t) \<longrightarrow> smartParseProxy t = None) \<and>
   smartParseProxy (js ''192.168.1.1:99999'') = None \<and>
   (host_text h' \<longrightarrow> port_text p' \<longrightarrow> r \<noteq> [] \<longrightarrow> hd r \<noteq> 58 \<longrightarrow>
    \<not> is_digit (hd r) \<or> length p' = 5 \<longrightarrow> 64 \<notin> set r \<longrightarrow> \<not> is_space (last r) \<longrightarrow>
      smartParseProxy (h' @ 58 # p' @ r) = smartParseProxy (h' @ 58 # p'))"
proof (intro conjI impI)
  assume "tokens_ok (sch, pre, h, p, suf)" "65535 < digits_val p"
  then show "smartParseProxy (proxy_text (sch, pre, h, p, suf)) = None"
    using parse_written[of sch pre h p suf] by simp
next
  assume no: "\<not> colon_digit (trim t)"
  show "smartParseProxy t = None"
  proof (cases "smartParseProxy t")
    case None
    then show ?thesis .
  next
    case (Some d)
    then obtain m :: caps and pre w post where "trim t = pre @ w @ post" "match_shape w m"
      by (blast elim: parse_some)
    with match_shape_colon_digit[of w m pre post] no show ?thesis by simp
  qed
next
  let ?h = "js ''192.168.1.1''" and ?p = "js ''99999''"
  have "tokens_ok (None, None, ?h, ?p, None)" "65535 < digits_val ?p"
    by (simp_all add: js_def host_text_def host_cu_def port_text_def is_digit_def digits_val_def)
  moreover have "proxy_text (None, None, ?h, ?p, None) = js ''192.168.1.1:99999''"
    by (simp add: js_def)
  ultimately show "smartParseProxy (js ''192.168.1.1:99999'') = None"
    using parse_written[of None None ?h ?p None] by simp
next
  assume "host_text h'" "port_text p'" "r \<noteq> []" "hd r \<noteq> 58" "\<not> is_digit (hd r) \<or> length p' = 5"
    "64 \<notin> set r" "\<not> is_space (last r)"
  then show "smartParseProxy (h' @ 58 # p' @ r) = smartParseProxy (h' @ 58 # p')"
    by (rule bare_trailing)
qed

theorem port_out_of_range_witness:
  "smartParseProxy (js ''socks5://10.0.0.1:65536'') = None \<and>
   smartParseProxy (js ''10.0.0.1:http'') = None \<and>
   smartParseProxy (js ''1.2.3.4:8080x'') =
     Some \<lparr>type = Str (js ''http''), host = Str (js ''1.2.3.4''), port = Str (js ''8080''),
       user = Str [], pass = Str []\<rparr>"
proof -
  let ?h = "js ''10.0.0.1''" and ?p = "js ''65536''"
  let ?tk = "(Some (js ''socks5'', js ''://''), None, ?h, ?p, None)"
  have ok: "tokens_ok ?tk" and big: "65535 < digits_val ?p"
    using scheme_token_lower(4) separator_examples(1)
    by (simp_all add: js_def host_text_def host_cu_def port_text_def is_digit_def digits_val_def)
  have wr: "proxy_text ?tk = js ''socks5://10.0.0.1:65536''"
    by (simp add: js_def)
  have t2: "trim (js ''10.0.0.1:http'') = js ''10.0.0.1:http''"
    by (rule trim_id) (simp_all add: js_def is_space_def)
  have no: "\<not> colon_digit (trim (js ''10.0.0.1:http''))"
    unfolding t2 by (simp add: js_def is_digit_def)
  have r: "js ''x'' \<noteq> []" "hd (js ''x'') \<noteq> 58" "\<not> is_digit (hd (js ''x'')) \<or> length (js ''8080'') = 5"
    "64 \<notin> set (js ''x'')" "\<not> is_space (last (js ''x''))"
    by (simp_all add: js_def is_digit_def is_space_def)
  have wr2: "js ''1.2.3.4'' @ 58 # js ''8080'' @ js ''x'' = js ''1.2.3.4:8080x''"
    "js ''1.2.3.4'' @ 58 # js ''8080'' = js ''1.2.3.4:8080''"
    by (simp_all add: js_def)
  from port_out_of_range[where sch = "Some (js ''socks5'', js ''://'')" and pre = None and h = ?h
      and p = ?p and suf = None and t = "js ''10.0.0.1:http''" and h' = "js ''1.2.3.4''"
      and p' = "js ''8080''" and r = "js ''x''"]
    ok big no plain_tokens(1,3) r
  have "smartParseProxy (proxy_text ?tk) = None" "smartParseProxy (js ''10.0.0.1:http'') = None"
    "smartParseProxy (js ''1.2.3.4'' @ 58 # js ''8080'' @ js ''x'') =
       smartParseProxy (js ''1.2.3.4'' @ 58 # js ''8080'')"
    by blast+
  then show ?thesis unfolding wr wr2 plain_parse by simp
qed

text \<open>
  The claim C3 as it was stated fails: in \<^verbatim>\<open>1.2.3.4:80abc\<close> the port part \<^verbatim>\<open>80abc\<close> is not
  numeric, and the parser returns a descriptor, with the port \<^verbatim>\<open>80\<close>.
\<close>

theorem port_with_letters_is_parsed:
  "smartParseProxy (js ''1.2.3.4:80abc'') =
     Some \<lparr>type = Str (js ''http''), host = Str (js ''1.2.3.4''), port = Str (js ''80''),
       user = Str [], pass = Str []\<rparr> \<and>
   \<not> list_all is_digit (js ''80abc'')"
  using digits_then_letters_parse by (simp add: js_def is_digit_def)

text \<open>
  C4. For every valid host (non-empty, over the alphabet \<^verbatim>\<open>[A-Za-z0-9.-]\<close>, not made of dots
  only, as the data model has it) and every port in \<open>[0, 65535]\<close>, parsing the bare string
  \<^verbatim>\<open>host:port\<close> succeeds with the scheme \<^verbatim>\<open>http\<close>, that host, that port, and empty user name
  and password. The port is written in decimal, or more generally with any one to five
  digits whose value is at most 65535 (leading zeros are kept in the port field).
\<close>

theorem bare_host_port:
  "(host_text h \<longrightarrow> \<not> only_dots h \<longrightarrow> n \<le> 65535 \<longrightarrow>
      smartParseProxy (h @ 58 # decimal n) =
        Some \<lparr>type = Str (js ''http''), host = Str h, port = Str (decimal n),
          user = Str [], pass = Str []\<rparr>) \<and>
   (host_text h \<longrightarrow> \<not> only_dots h \<longrightarrow> port_text p \<longrightarrow> digits_val p \<le> 65535 \<longrightarrow>
      smartParseProxy (h @ 58 # p) =
        Some \<lparr>type = Str (js ''http''), host = Str h, port = Str p, user = Str [], pass = Str []\<rparr>)"
proof -
  have bare: "smartParseProxy (h @ 58 # p) =
      Some \<lparr>type = Str (js ''http''), host = Str h, port = Str p, user = Str [], pass = Str []\<rparr>"
    if "host_text h" "\<not> only_dots h" "port_text p" "digits_val p \<le> 65535" for p
  proof -
    from that have "tokens_ok (None, None, h, p, None)" by simp
    from parse_written[OF this] that(2,4) show ?thesis
      by (simp add: resolve_none)
  qed
  from bare decimal_port[of n] show ?thesis by blast
qed

theorem bare_host_port_witness:
  "smartParseProxy (js ''example.com:8080'') =
     Some \<lparr>type = Str (js ''http''), host = Str (js ''example.com''), port = Str (js ''8080''),
       user = Str [], pass = Str []\<rparr> \<and>
   smartParseProxy (js ''10.0.0.1:0080'') =
     Some \<lparr>type = Str (js ''http''), host = Str (js ''10.0.0.1''), port = Str (js ''0080''),
       user = Str [], pass = Str []\<rparr>"
proof -
  have d: "decimal 8080 = js ''8080''"
    by (simp add: decimal_small decimal_large js_def)
  have 1: "host_text (js ''example.com'')" "\<not> only_dots (js ''example.com'')" "(8080::nat) \<le> 65535"
    by (simp_all add: js_def host_text_def host_cu_def only_dots_def)
  have 2: "host_text (js ''10.0.0.1'')" "\<not> only_dots (js ''10.0.0.1'')"
    "port_text (js ''0080'')" "digits_val (js ''0080'') \<le> 65535"
    by (simp_all add: js_def host_text_def host_cu_def only_dots_def port_text_def is_digit_def
        digits_val_def)
  from bare_host_port[of "js ''example.com''" 8080] bare_host_port[of "js ''10.0.0.1''" _ "js ''0080''"]
    1 2
  show ?thesis unfolding d by (simp add: js_def)
qed

text \<open>
  C5, as amended. Whenever one of the five scheme tokens of the pattern, \<^verbatim>\<open>http\<close>, \<^verbatim>\<open>https\<close>,
  \<^verbatim>\<open>socks4\<close>, \<^verbatim>\<open>socks5\<close>, \<^verbatim>\<open>socks5h\<close>, is present in any letter case, separated from the rest
  by \<^verbatim>\<open>://\<close> or by white space, the parser resolves it to \<^verbatim>\<open>http\<close>, \<^verbatim>\<open>http\<close>, \<^verbatim>\<open>socks4\<close>,
  \<^verbatim>\<open>socks5\<close>, \<^verbatim>\<open>socks5\<close> respectively, and the other fields are the tokens written. In
  particular \<^verbatim>\<open>socks5 203.0.113.5:1080:alice:secret\<close> gives the scheme \<^verbatim>\<open>socks5\<close>, the host
  \<^verbatim>\<open>203.0.113.5\<close>, the port \<^verbatim>\<open>1080\<close>, and \<^verbatim>\<open>alice\<close> with \<^verbatim>\<open>secret\<close>. No other token is read
  as a scheme: a token before \<^verbatim>\<open>://\<close> that does not end in one of the five is passed over,
  and the scheme is the default \<^verbatim>\<open>http\<close>; and whenever the parser returns a scheme other
  than \<^verbatim>\<open>http\<close>, one of the five tokens stands in the input with its separator.
\<close>

theorem scheme_resolution:
  "((w, ty) \<in> set scheme_table \<longrightarrow> in_any_case w tok \<longrightarrow> separator sep \<longrightarrow> prefix_ok pre \<longrightarrow>
    host_text h \<longrightarrow> port_text p \<longrightarrow> suffix_ok suf \<longrightarrow> \<not> only_dots h \<longrightarrow> digits_val p \<le> 65535 \<longrightarrow>
      smartParseProxy (tok @ sep @ prefix_text pre @ h @ 58 # p @ suffix_text suf) =
        Some \<lparr>type = Str ty, host = Str h, port = Str p,
          user = Str (case pre of Some (u, v) \<Rightarrow> u | None \<Rightarrow> (case suf of Some (x, y) \<Rightarrow> x | None \<Rightarrow> [])),
          pass = Str (case pre of Some (u, v) \<Rightarrow> v | None \<Rightarrow> (case suf of Some (x, y) \<Rightarrow> y | None \<Rightarrow> []))\<rparr>) \<and>
   smartParseProxy (js ''socks5 203.0.113.5:1080:alice:secret'') =
     Some \<lparr>type = Str (js ''socks5''), host = Str (js ''203.0.113.5''), port = Str (js ''1080''),
       user = Str (js ''alice''), pass = Str (js ''secret'')\<rparr> \<and>
   (prefix_token other \<longrightarrow> \<not> scheme_ending other \<longrightarrow>
    host_text h \<longrightarrow> port_text p \<longrightarrow> suffix_ok suf \<longrightarrow> \<not> only_dots h \<longrightarrow> digits_val p \<le> 65535 \<longrightarrow>
      smartParseProxy (other @ js ''://'' @ h @ 58 # p @ suffix_text suf) =
        Some \<lparr>type = Str (js ''http''), host = Str h, port = Str p,
          user = Str (case suf of Some (x, y) \<Rightarrow> x | None \<Rightarrow> []),
          pass = Str (case suf of Some (x, y) \<Rightarrow> y | None \<Rightarrow> [])\<rparr>) \<and>
   (smartParseProxy t = Some d \<longrightarrow>
      type d = Str (js ''http'') \<or>
      (\<exists>before tok' sep' after w' ty'. trim t = before @ tok' @ sep' @ after \<and>
         (w', ty') \<in> set scheme_table \<and> in_any_case w' tok' \<and> separator sep' \<and> type d = Str ty'))"
proof (intro conjI impI)
  assume "smartParseProxy t = Some d"
  then show "type d = Str (js ''http'') \<or>
      (\<exists>before tok' sep' after w' ty'. trim t = before @ tok' @ sep' @ after \<and>
         (w', ty') \<in> set scheme_table \<and> in_any_case w' tok' \<and> separator sep' \<and> type d = Str ty')"
    by (rule type_from_table)
next
  assume tab: "(w, ty) \<in> set scheme_table" "in_any_case w tok"
    and rest: "separator sep" "prefix_ok pre" "host_text h" "port_text p" "suffix_ok suf"
    and chk: "\<not> only_dots h" "digits_val p \<le> 65535"
  from scheme_table_token[OF tab] rest have ok: "tokens_ok (Some (tok, sep), pre, h, p, suf)"
    and ty: "resolve_type (toLowerCase tok) = ty"
    by simp_all
  from parse_written[OF ok] chk ty
  show "smartParseProxy (tok @ sep @ prefix_text pre @ h @ 58 # p @ suffix_text suf) =
        Some \<lparr>type = Str ty, host = Str h, port = Str p,
          user = Str (case pre of Some (u, v) \<Rightarrow> u | None \<Rightarrow> (case suf of Some (x, y) \<Rightarrow> x | None \<Rightarrow> [])),
          pass = Str (case pre of Some (u, v) \<Rightarrow> v | None \<Rightarrow> (case suf of Some (x, y) \<Rightarrow> y | None \<Rightarrow> []))\<rparr>"
    by simp
next
  let ?tk = "(Some (js ''socks5'', js '' ''), None, js ''203.0.113.5'', js ''1080'',
      Some (js ''alice'', js ''secret''))"
  have ok: "tokens_ok ?tk"
    using scheme_token_lower(4) separator_examples(2)
    by (simp add: js_def host_text_def host_cu_def port_text_def is_digit_def suffix_token_def
        suffix_cu_def is_space_def)
  have chk: "\<not> only_dots (js ''203.0.113.5'')" "digits_val (js ''1080'') \<le> 65535"
    by (simp_all add: js_def only_dots_def digits_val_def)
  have wr: "proxy_text ?tk = js ''socks5 203.0.113.5:1080:alice:secret''"
    by (simp add: js_def)
  have ty: "resolve_type (toLowerCase (js ''socks5'')) = js ''socks5''"
    by (simp add: resolve_type_def toLowerCase_def js_def)
  from parse_written[OF ok] chk
  show "smartParseProxy (js ''socks5 203.0.113.5:1080:alice:secret'') =
     Some \<lparr>type = Str (js ''socks5''), host = Str (js ''203.0.113.5''), port = Str (js ''1080''),
       user = Str (js ''alice''), pass = Str (js ''secret'')\<rparr>"
    unfolding wr by (simp add: ty)
next
  assume "prefix_token other" "\<not> scheme_ending other" "host_text h" "port_text p" "suffix_ok suf"
    "\<not> only_dots h" "digits_val p \<le> 65535"
  then show "smartParseProxy (other @ js ''://'' @ h @ 58 # p @ suffix_text suf) =
        Some \<lparr>type = Str (js ''http''), host = Str h, port = Str p,
          user = Str (case suf of Some (x, y) \<Rightarrow> x | None \<Rightarrow> []),
          pass = Str (case suf of Some (x, y) \<Rightarrow> y | None \<Rightarrow> [])\<rparr>"
    by (rule unknown_token_parse)
qed

theorem scheme_resolution_witness:
  "smartParseProxy (js ''http://10.0.0.1:3128'') =
     Some \<lparr>type = Str (js ''http''), host = Str (js ''10.0.0.1''), port = Str (js ''3128''),
       user = Str [], pass = Str []\<rparr> \<and>
   smartParseProxy (js ''https://10.0.0.1:3128'') =
     Some \<lparr>type = Str (js ''http''), host = Str (js ''10.0.0.1''), port = Str (js ''3128''),
       user = Str [], pass = Str []\<rparr> \<and>
   smartParseProxy (js ''socks4://10.0.0.1:3128'') =
     Some \<lparr>type = Str (js ''socks4''), host = Str (js ''10.0.0.1''), port = Str (js ''3128''),
       user = Str [], pass = Str []\<rparr> \<and>
   smartParseProxy (js ''socks5://10.0.0.1:3128'') =
     Some \<lparr>type = Str (js ''socks5''), host = Str (js ''10.0.0.1''), port = Str (js ''3128''),
       user = Str [], pass = Str []\<rparr> \<and>
   smartParseProxy (js ''socks5h://10.0.0.1:3128'') =
     Some \<lparr>type = Str (js ''socks5''), host = Str (js ''10.0.0.1''), port = Str (js ''3128''),
       user = Str [], pass = Str []\<rparr> \<and>
   smartParseProxy (js ''SOCKS5://10.0.0.1:3128'') =
     Some \<lparr>type = Str (js ''socks5''), host = Str (js ''10.0.0.1''), port = Str (js ''3128''),
       user = Str [], pass = Str []\<rparr> \<and>
   smartParseProxy (js ''Socks4 10.0.0.1:3128'') =
     Some \<lparr>type = Str (js ''socks4''), host = Str (js ''10.0.0.1''), port = Str (js ''3128''),
       user = Str [], pass = Str []\<rparr> \<and>
   smartParseProxy (js ''ftp://10.0.0.1:3128'') =
     Some \<lparr>type = Str (js ''http''), host = Str (js ''10.0.0.1''), port = Str (js ''3128''),
       user = Str [], pass = Str []\<rparr> \<and>
   (\<exists>before tok sep after w. trim (js ''socks5 203.0.113.5:1080:alice:secret'') = before @ tok @ sep @ after \<and>
      (w, js ''socks5'') \<in> set scheme_table \<and> in_any_case w tok \<and> separator sep)"
proof -
  let ?h = "js ''10.0.0.1''" and ?p = "js ''3128''"
  have origin: "\<exists>before tok sep after w. trim (js ''socks5 203.0.113.5:1080:alice:secret'') = before @ tok @ sep @ after \<and>
      (w, js ''socks5'') \<in> set scheme_table \<and> in_any_case w tok \<and> separator sep"
  proof -
    let ?d = "\<lparr>type = Str (js ''socks5''), host = Str (js ''203.0.113.5''), port = Str (js ''1080''),
       user = Str (js ''alice''), pass = Str (js ''secret'')\<rparr>"
    note all = scheme_resolution[where t = "js ''socks5 203.0.113.5:1080:alice:secret''" and d = ?d]
    have ne: "js ''socks5'' \<noteq> js ''http''" by (simp add: js_def)
    from all[THEN conjunct2, THEN conjunct2, THEN conjunct2, rule_format,
        OF all[THEN conjunct2, THEN conjunct1]] ne
    show ?thesis by auto
  qed
  have hp: "host_text ?h" "port_text ?p" "\<not> only_dots ?h" "digits_val ?p \<le> 65535"
    by (simp_all add: js_def host_text_def host_cu_def port_text_def is_digit_def only_dots_def
        digits_val_def)
  have inst: "smartParseProxy (tok @ sep @ ?h @ 58 # ?p) =
      Some \<lparr>type = Str ty, host = Str ?h, port = Str ?p, user = Str [], pass = Str []\<rparr>"
    if "(w, ty) \<in> set scheme_table" "in_any_case w tok" "separator sep" for w ty tok sep
    using scheme_resolution[where w = w and ty = ty and tok = tok and sep = sep and pre = None
        and h = ?h and p = ?p and suf = None] that hp
    by simp
  have other: "smartParseProxy (js ''ftp'' @ js ''://'' @ ?h @ 58 # ?p) =
      Some \<lparr>type = Str (js ''http''), host = Str ?h, port = Str ?p, user = Str [], pass = Str []\<rparr>"
  proof -
    have "prefix_token (js ''ftp'')" "\<not> scheme_ending (js ''ftp'')"
      by (simp_all add: js_def prefix_token_def prefix_cu_def is_space_def scheme_token_def
          toLowerCase_def)
    with scheme_resolution[where other = "js ''ftp''" and h = ?h and p = ?p and suf = None] hp
    show ?thesis by simp
  qed
  have tab: "(js ''http'', js ''http'') \<in> set scheme_table"
    "(js ''https'', js ''http'') \<in> set scheme_table"
    "(js ''socks4'', js ''socks4'') \<in> set scheme_table"
    "(js ''socks5'', js ''socks5'') \<in> set scheme_table"
    "(js ''socks5h'', js ''socks5'') \<in> set scheme_table"
    by (simp_all add: scheme_table_def)
  have same: "in_any_case (js ''http'') (js ''http'')" "in_any_case (js ''https'') (js ''https'')"
    "in_any_case (js ''socks4'') (js ''socks4'')" "in_any_case (js ''socks5'') (js ''socks5'')"
    "in_any_case (js ''socks5h'') (js ''socks5h'')"
    "in_any_case (js ''socks5'') (js ''SOCKS5'')" "in_any_case (js ''socks4'') (js ''Socks4'')"
    by (simp_all add: in_any_case_def js_def)
  show ?thesis
    using inst[OF tab(1) same(1) separator_examples(1)] inst[OF tab(2) same(2) separator_examples(1)]
      inst[OF tab(3) same(3) separator_examples(1)] inst[OF tab(4) same(4) separator_examples(1)]
      inst[OF tab(5) same(5) separator_examples(1)] inst[OF tab(4) same(6) separator_examples(1)]
      inst[OF tab(3) same(7) separator_examples(2)] other origin
    by (simp add: js_def)
qed

text \<open>
  The claim C5 as it was stated fails: \<^verbatim>\<open>socks4a\<close> is a token that starts with \<^verbatim>\<open>socks4\<close>,
  and \<^verbatim>\<open>socks4a://1.2.3.4:1080\<close> parses with the scheme \<^verbatim>\<open>http\<close>, not \<^verbatim>\<open>socks4\<close>.
\<close>

theorem socks4a_resolves_to_http:
  "smartParseProxy (js ''socks4a://1.2.3.4:1080'') =
     Some \<lparr>type = Str (js ''http''), host = Str (js ''1.2.3.4''), port = Str (js ''1080''),
       user = Str [], pass = Str []\<rparr> \<and>
   startsWith (js ''socks4a'') (js ''socks4'')"
  using socks4a_parse by (simp add: js_def)

text \<open>
  C6. When both credential forms are written, \<^verbatim>\<open>user:pass@\<close> before the host and
  \<^verbatim>\<open>:user:pass\<close> after the port, with or without a scheme, the user name and the password
  of the descriptor are those written before the host.
\<close>

theorem prefix_credentials_win:
  assumes "tokens_ok (sch, Some (u, v), h, p, Some (x, y))" "\<not> only_dots h" "digits_val p \<le> 65535"
  shows "\<exists>ty. smartParseProxy (proxy_text (sch, Some (u, v), h, p, Some (x, y))) =
     Some \<lparr>type = Str ty, host = Str h, port = Str p, user = Str u, pass = Str v\<rparr>"
  using parse_written[OF assms(1)] assms(2,3) by simp

theorem prefix_credentials_win_witness:
  "\<exists>ty. smartParseProxy (js ''alice:pw@10.0.0.1:8080:bob:secret'') =
     Some \<lparr>type = Str ty, host = Str (js ''10.0.0.1''), port = Str (js ''8080''),
       user = Str (js ''alice''), pass = Str (js ''pw'')\<rparr>"
proof -
  let ?tk = "(None, Some (js ''alice'', js ''pw''), js ''10.0.0.1'', js ''8080'',
      Some (js ''bob'', js ''secret''))"
  have ok: "tokens_ok ?tk"
    by (simp add: js_def host_text_def host_cu_def port_text_def is_digit_def
        prefix_token_iff suffix_token_iff is_space_def)
  have chk: "\<not> only_dots (js ''10.0.0.1'')" "digits_val (js ''8080'') \<le> 65535"
    by (simp_all add: js_def only_dots_def digits_val_def)
  have wr: "proxy_text ?tk = js ''alice:pw@10.0.0.1:8080:bob:secret''"
    by (simp add: js_def)
  from prefix_credentials_win[OF ok chk] show ?thesis unfolding wr .
qed

text \<open>
  C7, as amended. In every successful parse the port field of the descriptor is the text
  that the pattern captured, a string of one to five decimal digits; it is not a number.
  The integer that \<^verbatim>\<open>parseInt\<close> reads from it lies in 0 to 65535 inclusive.
\<close>

theorem port_is_digit_text:
  assumes "smartParseProxy t = Some d"
  shows "\<exists>p n. port d = Str p \<and> port_text p \<and> parseInt p = Some n \<and> 0 \<le> n \<and> n \<le> 65535"
proof -
  from assms obtain m :: caps and h p n where "port_text p"
    "parseInt p = Some n" "0 \<le> n" "n \<le> 65535"
    "d = \<lparr>type = Str (resolve_type (toLowerCase (js_or (m 1) []))), host = Str h, port = Str p,
          user = Str (js_or (m 2) (js_or (m 6) [])), pass = Str (js_or (m 3) (js_or (m 7) []))\<rparr>"
    by (blast elim: parse_some)
  then show ?thesis by auto
qed

theorem port_is_digit_text_witness:
  "\<exists>p n. Str (js ''8080'') = Str p \<and> port_text p \<and> parseInt p = Some n \<and> 0 \<le> n \<and> n \<le> 65535"
  using port_is_digit_text[OF plain_parse] by simp

text \<open>
  The claim C7 as it was stated fails: for \<^verbatim>\<open>1.2.3.4:8080\<close> the port field is the string
  \<^verbatim>\<open>"8080"\<close>, and no number.
\<close>

theorem port_is_not_a_number:
  "map_option port (smartParseProxy (js ''1.2.3.4:8080'')) = Some (Str (js ''8080'')) \<and>
   (\<forall>n. map_option port (smartParseProxy (js ''1.2.3.4:8080'')) \<noteq> Some (Num n))"
  by (simp add: plain_parse)

text \<open>
  C8. In every successful parse the user name and the password are either both the empty
  string or both non-empty.
\<close>

theorem credentials_both_or_neither:
  assumes "smartParseProxy t = Some d"
  shows "(user d = Str [] \<and> pass d = Str []) \<or>
         (\<exists>u v. user d = Str u \<and> pass d = Str v \<and> u \<noteq> [] \<and> v \<noteq> [])"
proof -
  from assms obtain m :: caps and w h p where s: "match_shape w m" and
    d: "d = \<lparr>type = Str (resolve_type (toLowerCase (js_or (m 1) []))), host = Str h, port = Str p,
          user = Str (js_or (m 2) (js_or (m 6) [])), pass = Str (js_or (m 3) (js_or (m 7) []))\<rparr>"
    by (blast elim: parse_some)
  from groups_shape(2)[OF s] show ?thesis
  proof
    assume none: "m 2 = None \<and> m 3 = None"
    from groups_shape(3)[OF s] show ?thesis
    proof
      assume "m 6 = None \<and> m 7 = None"
      with none d show ?thesis by (simp add: js_or_def)
    next
      assume "\<exists>x y. m 6 = Some x \<and> m 7 = Some y \<and> suffix_token x \<and> suffix_token y"
      with none d show ?thesis by (auto simp: js_or_def suffix_token_def)
    qed
  next
    assume "\<exists>u v. m 2 = Some u \<and> m 3 = Some v \<and> prefix_token u \<and> prefix_token v"
    with d show ?thesis by (auto simp: js_or_def prefix_token_def)
  qed
qed

theorem credentials_both_or_neither_witness:
  "((Str [] = Str [] \<and> Str [] = Str []) \<or>
    (\<exists>u v. Str [] = Str u \<and> Str [] = Str v \<and> u \<noteq> [] \<and> v \<noteq> ([]::jsstring))) \<and>
   ((Str (js ''alice'') = Str [] \<and> Str (js ''pw'') = Str []) \<or>
    (\<exists>u v. Str (js ''alice'') = Str u \<and> Str (js ''pw'') = Str v \<and> u \<noteq> [] \<and> v \<noteq> []))"
  using credentials_both_or_neither[OF plain_parse] credentials_both_or_neither[OF both_forms_parse]
  by simp

text \<open>
  C9. For every input string the call of the parser returns, with a descriptor or with
  \<^verbatim>\<open>null\<close>, and never throws: none of the steps that can throw (a method of a value that is
  no string, an entry of \<^verbatim>\<open>null\<close>) does so, and what the call returns is the value of
  \<open>smartParseProxy\<close>. Every function of the model is total, the matcher being defined by
  terminating recursion on the pattern and the input. An input that is empty or holds white
  space only gives \<^verbatim>\<open>null\<close>.
\<close>

theorem never_raises:
  "smartParseProxy_call (Str t) = Inr (smartParseProxy t) \<and>
   smartParseProxy_call (Str t) \<noteq> Inl e \<and>
   (list_all is_space t \<longrightarrow> smartParseProxy_call (Str t) = Inr None) \<and>
   smartParseProxy_call (Str []) = Inr None"
proof -
  have "smartParseProxy t = None" if "list_all is_space t" for t
    using that by (simp add: smartParseProxy_def trim_spaces)
  then show ?thesis by (simp add: call_returns)
qed

theorem never_raises_witness:
  "smartParseProxy_call (Str (js ''   '')) = Inr None \<and>
   smartParseProxy_call (Str [9, 32, 160, 10]) = Inr None \<and>
   smartParseProxy_call (Str (js ''1.2.3.4:8080'')) =
     Inr (Some \<lparr>type = Str (js ''http''), host = Str (js ''1.2.3.4''), port = Str (js ''8080''),
       user = Str [], pass = Str []\<rparr>)"
proof -
  have sp: "list_all is_space (js ''   '')" "list_all is_space [9, 32, 160, 10]"
    by (simp_all add: js_def is_space_def)
  have 1: "smartParseProxy_call (Str (js ''   '')) = Inr None"
    using never_raises[where t = "js ''   ''", THEN conjunct2, THEN conjunct2, THEN conjunct1,
        rule_format, OF sp(1)] .
  have 2: "smartParseProxy_call (Str [9, 32, 160, 10]) = Inr None"
    using never_raises[where t = "[9, 32, 160, 10]", THEN conjunct2, THEN conjunct2, THEN conjunct1,
        rule_format, OF sp(2)] .
  have 3: "smartParseProxy_call (Str (js ''1.2.3.4:8080'')) =
     Inr (Some \<lparr>type = Str (js ''http''), host = Str (js ''1.2.3.4''), port = Str (js ''8080''),
       user = Str [], pass = Str []\<rparr>)"
    using never_raises[where t = "js ''1.2.3.4:8080''", THEN conjunct1] unfolding plain_parse .
  from 1 2 3 show ?thesis by (intro conjI)
qed

text \<open>
  C10. The two credential forms accept different tokens. After the port, in
  \<^verbatim>\<open>host:port:user:pass\<close>, a token is any non-empty text without colon and white space, so
  it may hold an at sign: such an input parses to exactly those tokens. Before the host, a
  captured token never holds an at sign (nor a colon or white space). For example
  \<^verbatim>\<open>h:80:a@b:c@d\<close> parses with the user name \<^verbatim>\<open>a@b\<close> and the password \<^verbatim>\<open>c@d\<close>.
\<close>

theorem credential_alphabets:
  "(host_text h \<longrightarrow> \<not> only_dots h \<longrightarrow> port_text p \<longrightarrow> digits_val p \<le> 65535 \<longrightarrow>
    x \<noteq> [] \<longrightarrow> 58 \<notin> set x \<longrightarrow> \<not> list_ex is_space x \<longrightarrow>
    y \<noteq> [] \<longrightarrow> 58 \<notin> set y \<longrightarrow> \<not> list_ex is_space y \<longrightarrow>
      smartParseProxy (h @ 58 # p @ 58 # x @ 58 # y) =
        Some \<lparr>type = Str (js ''http''), host = Str h, port = Str p, user = Str x, pass = Str y\<rparr>) \<and>
   (match True regex s = Some m \<longrightarrow>
      (\<forall>u. m 2 = Some u \<or> m 3 = Some u \<longrightarrow>
         u \<noteq> [] \<and> 64 \<notin> set u \<and> 58 \<notin> set u \<and> \<not> list_ex is_space u) \<and>
      (\<forall>z. m 6 = Some z \<or> m 7 = Some z \<longrightarrow> z \<noteq> [] \<and> 58 \<notin> set z \<and> \<not> list_ex is_space z)) \<and>
   smartParseProxy (js ''h:80:a@b:c@d'') =
     Some \<lparr>type = Str (js ''http''), host = Str (js ''h''), port = Str (js ''80''),
       user = Str (js ''a@b''), pass = Str (js ''c@d'')\<rparr>"
proof -
  have suffix_form: "smartParseProxy (h @ 58 # p @ 58 # x @ 58 # y) =
      Some \<lparr>type = Str (js ''http''), host = Str h, port = Str p, user = Str x, pass = Str y\<rparr>"
    if "host_text h" "\<not> only_dots h" "port_text p" "digits_val p \<le> 65535"
      "suffix_token x" "suffix_token y" for h p x y
  proof -
    from that have "tokens_ok (None, None, h, p, Some (x, y))" by simp
    from parse_written[OF this] that(2,4) show ?thesis by (simp add: resolve_none)
  qed
  have groups: "(\<forall>u. m 2 = Some u \<or> m 3 = Some u \<longrightarrow>
         u \<noteq> [] \<and> 64 \<notin> set u \<and> 58 \<notin> set u \<and> \<not> list_ex is_space u) \<and>
      (\<forall>z. m 6 = Some z \<or> m 7 = Some z \<longrightarrow> z \<noteq> [] \<and> 58 \<notin> set z \<and> \<not> list_ex is_space z)"
    if "match True regex s = Some m"
  proof -
    from match_shape_found[OF that] obtain w where w: "match_shape w m" by blast
    from groups_shape(2,3)[OF w] show ?thesis
      unfolding prefix_token_iff suffix_token_iff by auto
  qed
  have ex: "smartParseProxy (js ''h:80:a@b:c@d'') =
     Some \<lparr>type = Str (js ''http''), host = Str (js ''h''), port = Str (js ''80''),
       user = Str (js ''a@b''), pass = Str (js ''c@d'')\<rparr>"
  proof -
    have "host_text (js ''h'')" "\<not> only_dots (js ''h'')" "port_text (js ''80'')"
      "digits_val (js ''80'') \<le> 65535" "suffix_token (js ''a@b'')" "suffix_token (js ''c@d'')"
      by (simp_all add: js_def host_text_def host_cu_def only_dots_def port_text_def is_digit_def
          digits_val_def suffix_token_iff is_space_def)
    from suffix_form[OF this] show ?thesis by (simp add: js_def)
  qed
  from suffix_form groups ex show ?thesis
    unfolding suffix_token_iff by blast
qed

theorem credential_alphabets_witness:
  "smartParseProxy (js ''proxy.example.com:3128:user@corp:p@ss'') =
     Some \<lparr>type = Str (js ''http''), host = Str (js ''proxy.example.com''), port = Str (js ''3128''),
       user = Str (js ''user@corp''), pass = Str (js ''p@ss'')\<rparr> \<and>
   (\<exists>m. match True regex (js ''alice:pw@10.0.0.1:8080'') = Some m \<and> m 2 = Some (js ''alice'') \<and>
      64 \<notin> set (js ''alice''))"
proof -
  let ?h = "js ''proxy.example.com''" and ?p = "js ''3128''"
    and ?x = "js ''user@corp''" and ?y = "js ''p@ss''"
  have hyps: "host_text ?h" "\<not> only_dots ?h" "port_text ?p" "digits_val ?p \<le> 65535"
    "?x \<noteq> []" "58 \<notin> set ?x" "\<not> list_ex is_space ?x" "?y \<noteq> []" "58 \<notin> set ?y" "\<not> list_ex is_space ?y"
    by (simp_all add: js_def host_text_def host_cu_def only_dots_def port_text_def is_digit_def
        digits_val_def is_space_def)
  have wr: "?h @ 58 # ?p @ 58 # ?x @ 58 # ?y = js ''proxy.example.com:3128:user@corp:p@ss''"
    by (simp add: js_def)
  let ?tk = "(None, Some (js ''alice'', js ''pw''), js ''10.0.0.1'', js ''8080'', None)"
  have ok: "tokens_ok ?tk"
    by (simp add: js_def host_text_def host_cu_def port_text_def is_digit_def
        prefix_token_iff is_space_def)
  have wr2: "proxy_text ?tk = js ''alice:pw@10.0.0.1:8080''" by (simp add: js_def)
  from match_written[OF ok] obtain m where
    m: "match True regex (js ''alice:pw@10.0.0.1:8080'') = Some m" "m 2 = Some (js ''alice'')"
    unfolding wr2 by auto
  from credential_alphabets[of ?h ?p ?x ?y "js ''alice:pw@10.0.0.1:8080''" m] hyps m
  have "smartParseProxy (?h @ 58 # ?p @ 58 # ?x @ 58 # ?y) =
      Some \<lparr>type = Str (js ''http''), host = Str ?h, port = Str ?p, user = Str ?x, pass = Str ?y\<rparr>"
    "64 \<notin> set (js ''alice'')"
    by blast+
  with m show ?thesis unfolding wr by blast
qed

end
